theory Spec2Isabelle
  imports Main "HOL-Library.Word"
begin

section \<open>The notebook: CounterLinear\<close>

text \<open>
  \<^verbatim>\<open>
  class CounterLinear(nnx.Module):
    def __init__(self, din, dout, *, rngs):
      self.linear = nnx.Linear(din, dout, rngs=rngs)
      self.count = Count(jnp.zeros((), jnp.int32))

    def __call__(self, x):
      self.count += 1
      return self.linear(x)
  \<close>
  The arrays are values of a type \<open>'a\<close> that is never computed with. The counter is a
  \<open>jnp.int32\<close> scalar, a 32-bit word whose addition wraps. The forward pass of
  \<open>nnx.Linear\<close> is library code that the notebook only calls: it is the parameter
  \<open>Linear_call\<close>, a function of the layer's parameters and the input.
\<close>

record 'a Linear =
  kernel :: 'a
  bias :: 'a

record 'a CounterLinear =
  linear :: "'a Linear"
  count :: "32 word"

definition CounterLinear_init :: "'a Linear \<Rightarrow> 'a CounterLinear" where
  "CounterLinear_init lin = \<lparr>linear = lin, count = 0\<rparr>"

definition CounterLinear_call ::
  "('a Linear \<Rightarrow> 'x \<Rightarrow> 'y) \<Rightarrow> 'a CounterLinear \<Rightarrow> 'x \<Rightarrow> 'y \<times> 'a CounterLinear" where
  "CounterLinear_call Linear_call self x =
     (let self1 = self\<lparr>count := count self + 1\<rparr>
      in (Linear_call (linear self1) x, self1))"

section \<open>The notebook: split and merge\<close>

text \<open>
  Modelled from the spec: \<open>Module.split\<close>, \<open>GraphDef.merge\<close> and the types
  \<open>Module\<close>, \<open>State\<close> and \<open>GraphDef\<close> are library code whose source the
  notebook does not hold; the notebook calls them and prints what they return. The spec
  says that split separates "an object's mutable numeric state from its static structural
  metadata", and the notebook that split gives "a State dict-like object that contains
  the dynamic state of the Module, and a GraphDef object that contains the static
  structure of the Module", which merge turns "back into a Module object".

  Modules are Python objects with reference semantics: "Module references can be shared
  between multiple Modules". So a module is modelled as a graph of objects: a heap that
  gives, for the identity of each object, its type, its static fields (name and printed
  value), its variables (name, variable type such as \<open>Param\<close> or \<open>Count\<close>, and
  value) and its submodules (attribute name and the identity of the object), together
  with the identity of the root object. Two attributes that hold the same identity share
  one object, and an object may refer back to one that contains it. Values are of any
  type \<open>'v\<close>.
\<close>

datatype 'v Obj =
  Obj (obj_type: string) (obj_static_fields: "(string \<times> string) list")
      (obj_variables: "(string \<times> string \<times> 'v) list") (obj_submodules: "(string \<times> nat) list")

datatype 'v Module = Module (heap: "(nat \<times> 'v Obj) list") (root: nat)

text \<open>
  Modelled from the spec: a GraphDef is printed as \<open>GraphDef(type, index,
  static_fields, variables, submodules)\<close>, the variables without their values. The index
  numbers the objects in the order split first meets them; where an object is met again,
  the GraphDef holds only its index. A State maps a key, the attribute names from the root
  to a variable joined by \<open>/\<close>, to the variable's value.
\<close>

datatype GraphDef =
    GraphDef string nat "(string \<times> string) list" "(string \<times> string) list"
      "(string \<times> GraphDef) list"
  | Index nat

type_synonym 'v State = "string \<rightharpoonup> 'v"

fun gd_index :: "GraphDef \<Rightarrow> nat" where
  "gd_index (GraphDef t i sf vs subs) = i"
| "gd_index (Index j) = j"

text \<open>The index of an object: its position in the list of the objects met so far.\<close>

fun index_of :: "nat list \<Rightarrow> nat \<Rightarrow> nat" where
  "index_of [] a = 0"
| "index_of (x # xs) a = (if x = a then 0 else Suc (index_of xs a))"

text \<open>
  Modelled from the spec: the traversal of split, from the object \<open>a\<close> reached under
  the key prefix \<open>p\<close>, with the objects \<open>seen\<close> so far. It returns the GraphDef,
  the State entries (one for every variable of every object met for the first time) and
  the objects seen afterwards. The traversal is recursive; each nested call enters an
  object not seen before, so its depth is at most the number of objects, and \<open>fuel\<close>
  bounds that depth. An object that the heap does not hold, or fuel that runs out, gives
  \<open>None\<close>.
\<close>

fun split_node ::
  "nat \<Rightarrow> (nat \<times> 'v Obj) list \<Rightarrow> nat list \<Rightarrow> string \<Rightarrow> nat
     \<Rightarrow> (GraphDef \<times> (string \<times> 'v) list \<times> nat list) option"
and split_subs ::
  "nat \<Rightarrow> (nat \<times> 'v Obj) list \<Rightarrow> nat list \<Rightarrow> string \<Rightarrow> (string \<times> nat) list
     \<Rightarrow> ((string \<times> GraphDef) list \<times> (string \<times> 'v) list \<times> nat list) option" where
  "split_node 0 h seen p a =
     (if a \<in> set seen then Some (Index (index_of seen a), [], seen) else None)"
| "split_node (Suc fuel) h seen p a =
     (if a \<in> set seen then Some (Index (index_of seen a), [], seen)
      else
        (case map_of h a of
           None \<Rightarrow> None
         | Some obj \<Rightarrow>
             (case split_subs fuel h (seen @ [a]) p (obj_submodules obj) of
                None \<Rightarrow> None
              | Some (gs, es, seen') \<Rightarrow>
                  Some (GraphDef (obj_type obj) (length seen) (obj_static_fields obj)
                          (map (\<lambda>(n, c, v). (n, c)) (obj_variables obj)) gs,
                        map (\<lambda>(n, c, v). (p @ n, v)) (obj_variables obj) @ es,
                        seen'))))"
| "split_subs fuel h seen p [] = Some ([], [], seen)"
| "split_subs fuel h seen p ((n, a) # rest) =
     (case split_node fuel h seen (p @ n @ ''/'') a of
        None \<Rightarrow> None
      | Some (g, es, seen1) \<Rightarrow>
          (case split_subs fuel h seen1 p rest of
             None \<Rightarrow> None
           | Some (gs, es', seen2) \<Rightarrow> Some ((n, g) # gs, es @ es', seen2)))"

text \<open>
  Modelled from the spec: \<open>state, static = model.split()\<close>. The number of objects
  of the heap is fuel enough. \<open>visit_order\<close> lists the objects in the order split
  meets them.
\<close>

definition Module_split :: "'v Module \<Rightarrow> ('v State \<times> GraphDef) option" where
  "Module_split m =
     (case split_node (length (heap m)) (heap m) [] [] (root m) of
        None \<Rightarrow> None
      | Some (g, es, seen) \<Rightarrow> Some (map_of es, g))"

definition visit_order :: "'v Module \<Rightarrow> nat list" where
  "visit_order m =
     (case split_node (length (heap m)) (heap m) [] [] (root m) of
        None \<Rightarrow> []
      | Some (g, es, seen) \<Rightarrow> seen)"

text \<open>
  Modelled from the spec: merge makes a new object for every node of the GraphDef, with
  the node's index as its identity, reads each variable from the State's entry at the
  variable's key, and points each submodule attribute to the object of the index found
  there. A key the State lacks is an error, \<open>None\<close>.
\<close>

fun merge_vars :: "string \<Rightarrow> (string \<times> string) list \<Rightarrow> 'v State \<Rightarrow> (string \<times> string \<times> 'v) list option" where
  "merge_vars p [] st = Some []"
| "merge_vars p ((n, c) # vs) st =
     (case st (p @ n) of
        None \<Rightarrow> None
      | Some v \<Rightarrow> (case merge_vars p vs st of None \<Rightarrow> None | Some r \<Rightarrow> Some ((n, c, v) # r)))"

fun merge_node :: "string \<Rightarrow> GraphDef \<Rightarrow> 'v State \<Rightarrow> (nat \<times> 'v Obj) list option"
and merge_subs :: "string \<Rightarrow> (string \<times> GraphDef) list \<Rightarrow> 'v State \<Rightarrow> (nat \<times> 'v Obj) list option" where
  "merge_node p (Index j) st = Some []"
| "merge_node p (GraphDef t i sf vs subs) st =
     (case merge_vars p vs st of
        None \<Rightarrow> None
      | Some vars \<Rightarrow>
          (case merge_subs p subs st of
             None \<Rightarrow> None
           | Some objs \<Rightarrow> Some ((i, Obj t sf vars (map (\<lambda>(n, g). (n, gd_index g)) subs)) # objs)))"
| "merge_subs p [] st = Some []"
| "merge_subs p ((n, g) # rest) st =
     (case merge_node (p @ n @ ''/'') g st of
        None \<Rightarrow> None
      | Some objs \<Rightarrow>
          (case merge_subs p rest st of None \<Rightarrow> None | Some objs' \<Rightarrow> Some (objs @ objs')))"

definition GraphDef_merge :: "GraphDef \<Rightarrow> 'v State \<Rightarrow> 'v Module option" where
  "GraphDef_merge static state =
     (case merge_node [] static state of
        None \<Rightarrow> None
      | Some objs \<Rightarrow> Some (Module objs (gd_index static)))"

text \<open>
  The notebook's jitted function, with the module's \<open>__call__\<close> as a function that
  returns the result and the module after the call:
  \<^verbatim>\<open>
  @jax.jit
  def forward(static: nnx.GraphDef, state: nnx.State, x: jax.Array):
    model = static.merge(state)
    y = model(x)
    state, _ = model.split()
    return y, state
  \<close>
\<close>

definition forward ::
  "('v Module \<Rightarrow> 'x \<Rightarrow> 'y \<times> 'v Module) \<Rightarrow> GraphDef \<Rightarrow> 'v State \<Rightarrow> 'x \<Rightarrow> ('y \<times> 'v State) option" where
  "forward call static state x =
     (case GraphDef_merge static state of
        None \<Rightarrow> None
      | Some model \<Rightarrow>
          (case call model x of
             (y, model1) \<Rightarrow>
               (case Module_split model1 of None \<Rightarrow> None | Some (state1, static1) \<Rightarrow> Some (y, state1))))"

text \<open>
  What holds of every graph of Python objects: a reference leads to an object, and the
  attributes of an object (its variables, its submodules) have distinct names. A name is
  not empty and has no \<open>/\<close> in it.
\<close>

definition attr_name :: "string \<Rightarrow> bool" where
  "attr_name n = (n \<noteq> [] \<and> CHR ''/'' \<notin> set n)"

definition wf_obj :: "(nat \<times> 'v Obj) list \<Rightarrow> 'v Obj \<Rightarrow> bool" where
  "wf_obj h obj =
     (list_all attr_name (map fst (obj_variables obj)) \<and> distinct (map fst (obj_variables obj))
      \<and> list_all attr_name (map fst (obj_submodules obj)) \<and> distinct (map fst (obj_submodules obj))
      \<and> list_all (\<lambda>a. a \<in> fst ` set h) (map snd (obj_submodules obj)))"

definition wf_module :: "'v Module \<Rightarrow> bool" where
  "wf_module m = (root m \<in> fst ` set (heap m) \<and> list_all (wf_obj (heap m)) (map snd (heap m)))"

definition wf_heap :: "(nat \<times> 'v Obj) list \<Rightarrow> bool" where
  "wf_heap h = (\<forall>a obj. map_of h a = Some obj \<longrightarrow> wf_obj h obj)"

text \<open>
  The objects that can be reached from the root through submodule attributes, and what it
  is for two modules to be the same up to the identities of their objects: \<open>f\<close> maps
  the objects of the first one to one onto those of the second, root to root, and each
  object to an object with the same type, static fields and variables, and with the
  submodules that \<open>f\<close> gives.
\<close>

definition rename_obj :: "(nat \<Rightarrow> nat) \<Rightarrow> 'v Obj \<Rightarrow> 'v Obj" where
  "rename_obj f obj =
     Obj (obj_type obj) (obj_static_fields obj) (obj_variables obj)
       (map (\<lambda>(n, a). (n, f a)) (obj_submodules obj))"

definition child_rel :: "(nat \<times> 'v Obj) list \<Rightarrow> (nat \<times> nat) set" where
  "child_rel h = {(a, b). \<exists>obj. map_of h a = Some obj \<and> b \<in> snd ` set (obj_submodules obj)}"

definition reachable :: "'v Module \<Rightarrow> nat set" where
  "reachable m = {b. (root m, b) \<in> (child_rel (heap m))\<^sup>*}"

definition isomorphic_by :: "(nat \<Rightarrow> nat) \<Rightarrow> 'v Module \<Rightarrow> 'v Module \<Rightarrow> bool" where
  "isomorphic_by f m m' =
     (inj_on f (reachable m) \<and> root m' = f (root m) \<and> fst ` set (heap m') = f ` reachable m
      \<and> (\<forall>a \<in> reachable m. \<exists>obj. map_of (heap m) a = Some obj
            \<and> map_of (heap m') (f a) = Some (rename_obj f obj)))"

text \<open>
  The object that a path of attribute names leads to, the variable that a path leads to
  (\<open>model.linear.kernel\<close> for the path \<open>linear\<close>, \<open>kernel\<close>), and the key of a
  path.
\<close>

fun module_at :: "(nat \<times> 'v Obj) list \<Rightarrow> nat \<Rightarrow> string list \<Rightarrow> nat option" where
  "module_at h a [] = Some a"
| "module_at h a (n # path) =
     (case map_of h a of
        None \<Rightarrow> None
      | Some obj \<Rightarrow>
          (case map_of (obj_submodules obj) n of None \<Rightarrow> None | Some b \<Rightarrow> module_at h b path))"

definition variable_at :: "'v Module \<Rightarrow> string list \<Rightarrow> 'v option" where
  "variable_at m path =
     (if path = [] then None
      else
        (case module_at (heap m) (root m) (butlast path) of
           None \<Rightarrow> None
         | Some a \<Rightarrow>
             (case map_of (heap m) a of
                None \<Rightarrow> None
              | Some obj \<Rightarrow> map_option snd (map_of (obj_variables obj) (last path)))))"

fun path_key :: "string list \<Rightarrow> string" where
  "path_key [] = []"
| "path_key [n] = n"
| "path_key (s # n # rest) = s @ ''/'' @ path_key (n # rest)"

text \<open>The same module with every value of a variable changed by \<open>f\<close>.\<close>

definition obj_map_values :: "('v \<Rightarrow> 'w) \<Rightarrow> 'v Obj \<Rightarrow> 'w Obj" where
  "obj_map_values f obj =
     Obj (obj_type obj) (obj_static_fields obj)
       (map (\<lambda>(n, c, v). (n, c, f v)) (obj_variables obj)) (obj_submodules obj)"

definition heap_map_values :: "('v \<Rightarrow> 'w) \<Rightarrow> (nat \<times> 'v Obj) list \<Rightarrow> (nat \<times> 'w Obj) list" where
  "heap_map_values f h = map (\<lambda>(a, obj). (a, obj_map_values f obj)) h"

definition map_values :: "('v \<Rightarrow> 'w) \<Rightarrow> 'v Module \<Rightarrow> 'w Module" where
  "map_values f m = Module (heap_map_values f (heap m)) (root m)"

text \<open>
  Two notions for the proofs: the list of seen objects grows at its end, by new objects of
  the heap; and the entry at key \<open>k\<close> holds the variable \<open>n\<close>, with value
  \<open>v\<close>, of the object \<open>b\<close> that a path from \<open>a\<close> leads to.
\<close>

definition extends :: "(nat \<times> 'v Obj) list \<Rightarrow> nat list \<Rightarrow> nat list \<Rightarrow> bool" where
  "extends h seen seen' =
     (\<exists>new. seen' = seen @ new \<and> distinct new \<and> set new \<inter> set seen = {} \<and> set new \<subseteq> fst ` set h)"

definition var_entry ::
  "(nat \<times> 'v Obj) list \<Rightarrow> nat \<Rightarrow> string \<Rightarrow> string \<Rightarrow> string \<Rightarrow> 'v \<Rightarrow> nat \<Rightarrow> bool" where
  "var_entry h a p k n v b =
     (\<exists>q c obj. list_all attr_name (q @ [n]) \<and> k = p @ path_key (q @ [n])
        \<and> module_at h a q = Some b \<and> map_of h b = Some obj
        \<and> map_of (obj_variables obj) n = Some (c, v))"

text \<open>
  The model of the notebook, \<open>CounterLinear(4, 4, rngs=nnx.Rngs(0))\<close>, with the
  values it prints; and a module whose attributes \<open>left\<close> and \<open>right\<close> share one
  object, which refers back to the root.
\<close>

definition counter_linear_example :: "string Module" where
  "counter_linear_example =
     Module
       [(0, Obj ''CounterLinear'' [] [(''count'', ''Count'', ''Array(0, dtype=int32)'')]
              [(''linear'', 1)]),
        (1, Obj ''Linear''
              [(''bias_init'', ''<function zeros>''), (''dot_general'', ''<function dot_general>''),
               (''dtype'', ''None''), (''in_features'', ''4''),
               (''kernel_init'', ''<function variance_scaling.<locals>.init>''),
               (''out_features'', ''4''), (''param_dtype'', ''<class jax.numpy.float32>''),
               (''precision'', ''None''), (''use_bias'', ''True'')]
              [(''bias'', ''Param'', ''Array([0., 0., 0., 0.], dtype=float32)''),
               (''kernel'', ''Param'', ''Array([[ 0.4541089 , -0.5264876 , -0.36505195, -0.57566494], [ 0.38802508,  0.5655534 ,  0.4870657 ,  0.2267774 ], [-0.9015767 ,  0.24465278, -0.5844707 ,  0.18421966], [-0.06992685, -0.64693886,  0.20232596,  1.1200062 ]], dtype=float32)'')]
              [])]
       0"

definition shared_example :: "int Module" where
  "shared_example =
     Module
       [(40, Obj ''Pair'' [] [(''count'', ''Count'', 0)] [(''left'', 17), (''right'', 17), (''other'', 23)]),
        (17, Obj ''Leaf'' [(''size'', ''4'')] [(''w'', ''Param'', 5)] [(''owner'', 40)]),
        (23, Obj ''Leaf'' [(''size'', ''4'')] [(''w'', ''Param'', 6)] [])]
       40"


section \<open>The workflow: expressions, steps and shell scripts\<close>

text \<open>
  A step's \<open>if:\<close> is an expression over the run's contexts (\<open>github.ref\<close>,
  \<open>matrix.test-type\<close>, ...), here a comparison of two operands or \<open>always()\<close>.
\<close>

datatype operand = Lit string | Ctx string

datatype cond = Eq operand operand | Neq operand operand | Always

type_synonym contexts = "string \<Rightarrow> string"

fun operand_val :: "contexts \<Rightarrow> operand \<Rightarrow> string" where
  "operand_val ctx (Lit s) = s"
| "operand_val ctx (Ctx name) = ctx name"

fun cond_holds :: "contexts \<Rightarrow> cond \<Rightarrow> bool" where
  "cond_holds ctx (Eq a b) = (operand_val ctx a = operand_val ctx b)"
| "cond_holds ctx (Neq a b) = (operand_val ctx a \<noteq> operand_val ctx b)"
| "cond_holds ctx Always = True"

record step =
  step_name :: "string option"
  step_uses :: "string option"
  step_if :: "cond option"

text \<open>Whether the first step of a job runs: a step without \<open>if:\<close> runs.\<close>

definition step_enabled :: "contexts \<Rightarrow> step \<Rightarrow> bool" where
  "step_enabled ctx s = (case step_if s of None \<Rightarrow> True | Some c \<Rightarrow> cond_holds ctx c)"


text \<open>
  \<^verbatim>\<open>
  - name: Cancel previous
    uses: styfle/cancel-workflow-action@0.10.1
    if: ${{github.ref != 'refs/head/main'}}
  \<close>
\<close>

definition cancel_step :: step where
  "cancel_step =
     \<lparr>step_name = Some ''Cancel previous'',
      step_uses = Some ''styfle/cancel-workflow-action@0.10.1'',
      step_if = Some (Neq (Ctx ''github.ref'') (Lit ''refs/head/main''))\<rparr>"

text \<open>
  The ref of a push to a branch, as the workflow's own comment gives it:
  "\<open>$GITHUB_REF\<close> is in format \<open>refs/heads/<branch_name>\<close>".
\<close>

definition branch_ref :: "string \<Rightarrow> string" where
  "branch_ref branch = ''refs/heads/'' @ branch"

text \<open>
  What a shell step does: it falls through to its end (status 0), or its last command is
  an external program whose status becomes the step's, or it prints messages and leaves
  with \<open>exit n\<close>.
\<close>

datatype step_outcome =
    Completed
  | Runs string "string list"
  | Exits "string list" nat

text \<open>
  The commit-count step, from the count that \<open>git rev-list --count\<close> printed:
  \<^verbatim>\<open>
  # We allow at most 5 commits in a branch to ensure our CI doesn't break.
  diff=$(git rev-list --count origin/main...commit-count)
  if (( $diff > 6)); then
    echo "ERROR! More than 5 commits in PR -- please squash your commits."
    url=https://flax.readthedocs.io/en/latest/contributing.html#too-many-commits-in-a-pull-request
    echo "See $url for help on how to resolve this."
    exit 1
  fi
  \<close>
\<close>

definition allowed_commits :: nat where
  "allowed_commits = 5"

definition commit_count_step :: "nat \<Rightarrow> step_outcome" where
  "commit_count_step diff =
     (if diff > 6 then
        Exits [''ERROR! More than 5 commits in PR -- please squash your commits.'',
               ''See '' @ ''https://flax.readthedocs.io/en/latest/contributing.html#too-many-commits-in-a-pull-request''
                 @ '' for help on how to resolve this.''] 1
      else Completed)"

text \<open>
  The test step, from the value of \<open>matrix.test-type\<close>:
  \<^verbatim>\<open>
  if [[ "${{ matrix.test-type }}" == "doctest" ]]; then
    tests/run_all_tests.sh --no-pytest --no-pytype --no-mypy --use-venv
  elif [[ "${{ matrix.test-type }}" == "pytest" ]]; then
    tests/run_all_tests.sh --no-doctest --no-pytype --no-mypy --with-cov --use-venv
  elif [[ "${{ matrix.test-type }}" == "pytype" ]]; then
    tests/run_all_tests.sh --no-doctest --no-pytest --no-mypy --use-venv
  elif [[ "${{ matrix.test-type }}" == "mypy" ]]; then
    tests/run_all_tests.sh --no-doctest --no-pytest --no-pytype --use-venv
  else
    echo "Unknown test type: ${{ matrix.test-type }}"
    exit 1
  fi
  \<close>
\<close>

definition tests_step :: "string \<Rightarrow> step_outcome" where
  "tests_step test_type =
     (if test_type = ''doctest'' then
        Runs ''tests/run_all_tests.sh'' [''--no-pytest'', ''--no-pytype'', ''--no-mypy'', ''--use-venv'']
      else if test_type = ''pytest'' then
        Runs ''tests/run_all_tests.sh''
          [''--no-doctest'', ''--no-pytype'', ''--no-mypy'', ''--with-cov'', ''--use-venv'']
      else if test_type = ''pytype'' then
        Runs ''tests/run_all_tests.sh'' [''--no-doctest'', ''--no-pytest'', ''--no-mypy'', ''--use-venv'']
      else if test_type = ''mypy'' then
        Runs ''tests/run_all_tests.sh'' [''--no-doctest'', ''--no-pytest'', ''--no-pytype'', ''--use-venv'']
      else Exits [''Unknown test type: '' @ test_type] 1)"

definition test_types :: "string list" where
  "test_types = [''doctest'', ''pytest'', ''pytype'', ''mypy'']"

text \<open>The flags that switch a test type off, and the flags a run for one type should carry.\<close>

definition no_flag :: "string \<Rightarrow> string" where
  "no_flag t = ''--no-'' @ t"

definition expected_flags :: "string \<Rightarrow> string set" where
  "expected_flags t =
     no_flag ` (set test_types - {t}) \<union> {''--use-venv''}
       \<union> (if t = ''pytest'' then {''--with-cov''} else {})"

section \<open>The workflow: triggers\<close>

text \<open>
  \<^verbatim>\<open>
  on:
    push:
      branches:
        - main
        - 'test_*'
    pull_request:
      branches:
        - main
  \<close>
  The \<open>on:\<close> map lists each triggering event with its branch filter. A push event
  carries the pushed branch or tag, a pull-request event its base branch; any other event
  is known by its name.
\<close>

datatype event = Push_branch string | Push_tag string | Pull_request string | Other_event string

fun event_name :: "event \<Rightarrow> string" where
  "event_name (Push_branch b) = ''push''"
| "event_name (Push_tag t) = ''push''"
| "event_name (Pull_request b) = ''pull_request''"
| "event_name (Other_event n) = n"

fun event_branch :: "event \<Rightarrow> string option" where
  "event_branch (Push_branch b) = Some b"
| "event_branch (Push_tag t) = None"
| "event_branch (Pull_request b) = Some b"
| "event_branch (Other_event n) = None"

text \<open>
  Branch filter patterns: a character stands for itself, and \<open>*\<close> for zero or more
  characters other than \<open>/\<close>.
\<close>

fun glob_match :: "string \<Rightarrow> string \<Rightarrow> bool" where
  "glob_match [] s = (s = [])"
| "glob_match (c # p) s =
     (if c = CHR ''*'' then
        glob_match p s \<or> (case s of [] \<Rightarrow> False | d # s' \<Rightarrow> d \<noteq> CHR ''/'' \<and> glob_match (c # p) s')
      else (case s of [] \<Rightarrow> False | d # s' \<Rightarrow> d = c \<and> glob_match p s'))"

text \<open>
  An event triggers the workflow when \<open>on:\<close> has its name and one of the branch
  patterns listed there matches its branch; with a \<open>branches\<close> filter, an event
  without a branch (a tag push) does not trigger.
\<close>

definition triggered :: "(string \<times> string list) list \<Rightarrow> event \<Rightarrow> bool" where
  "triggered on_map ev =
     (case map_of on_map (event_name ev) of
        None \<Rightarrow> False
      | Some patterns \<Rightarrow>
          (case event_branch ev of
             None \<Rightarrow> False
           | Some b \<Rightarrow> list_ex (\<lambda>p. glob_match p b) patterns))"

definition build_on :: "(string \<times> string list) list" where
  "build_on = [(''push'', [''main'', ''test_*'']), (''pull_request'', [''main''])]"

section \<open>The workflow: jobs and the matrix\<close>

record strategy =
  axes :: "(string \<times> string list) list"
  exclude :: "(string \<times> string) list list"

record job =
  job_id :: string
  job_name :: string
  job_needs :: "string list"
  job_strategy :: "strategy option"
  job_steps :: "step list"

text \<open>
  The combinations of a matrix: one value for every axis, in the order of the axes,
  without those an \<open>exclude\<close> entry matches (an entry matches a combination that has
  all its pairs).
\<close>

fun combinations :: "(string \<times> string list) list \<Rightarrow> (string \<times> string) list list" where
  "combinations [] = [[]]"
| "combinations ((k, vs) # rest) = concat (map (\<lambda>v. map (\<lambda>c. (k, v) # c) (combinations rest)) vs)"

definition excluded :: "(string \<times> string) list list \<Rightarrow> (string \<times> string) list \<Rightarrow> bool" where
  "excluded ex c = list_ex (\<lambda>e. list_all (\<lambda>kv. kv \<in> set c) e) ex"

definition matrix_runs :: "job \<Rightarrow> (string \<times> string) list list" where
  "matrix_runs j =
     (case job_strategy j of
        None \<Rightarrow> [[]]
      | Some s \<Rightarrow> filter (\<lambda>c. \<not> excluded (exclude s) c) (combinations (axes s)))"

definition uses_step :: "string option \<Rightarrow> string \<Rightarrow> step" where
  "uses_step name action = \<lparr>step_name = name, step_uses = Some action, step_if = None\<rparr>"

definition run_step :: "string \<Rightarrow> cond option \<Rightarrow> step" where
  "run_step name c = \<lparr>step_name = Some name, step_uses = None, step_if = c\<rparr>"

definition cancel_previous :: job where
  "cancel_previous =
     \<lparr>job_id = ''cancel-previous'', job_name = ''Cancel Previous Runs'', job_needs = [],
      job_strategy = None, job_steps = [cancel_step]\<rparr>"

definition pre_commit :: job where
  "pre_commit =
     \<lparr>job_id = ''pre-commit'', job_name = ''Test pre-commit hooks'', job_needs = [],
      job_strategy = None,
      job_steps =
        [uses_step None ''actions/checkout@v3'',
         uses_step (Some ''Set up Python'') ''actions/setup-python@v4'',
         uses_step None ''pre-commit/action@v2.0.3'']\<rparr>"

definition commit_count :: job where
  "commit_count =
     \<lparr>job_id = ''commit-count'', job_name = ''Check commit count'', job_needs = [],
      job_strategy = None,
      job_steps =
        [uses_step None ''actions/checkout@v3'',
         run_step ''Check commit count in PR'' (Some Always)]\<rparr>"

definition test_import :: job where
  "test_import =
     \<lparr>job_id = ''test-import'', job_name = ''Test import standalone'', job_needs = [],
      job_strategy = Some \<lparr>axes = [(''python-version'', [''3.9'', ''3.10'', ''3.11''])], exclude = []\<rparr>,
      job_steps =
        [uses_step None ''actions/checkout@v3'',
         uses_step (Some ''Set up Python ${{ matrix.python-version }}'') ''actions/setup-python@v4'',
         run_step ''Install standalone dependencies only'' None,
         run_step ''Test importing Flax'' None]\<rparr>"

definition tests :: job where
  "tests =
     \<lparr>job_id = ''tests'', job_name = ''Run Tests'',
      job_needs = [''cancel-previous'', ''pre-commit'', ''commit-count'', ''test-import''],
      job_strategy =
        Some \<lparr>axes = [(''python-version'', [''3.9'', ''3.10'', ''3.11'']),
                      (''test-type'', [''doctest'', ''pytest'', ''pytype'', ''mypy''])],
              exclude = [[(''test-type'', ''pytype''), (''python-version'', ''3.11'')],
                         [(''test-type'', ''pytype''), (''python-version'', ''3.10'')],
                         [(''test-type'', ''mypy''), (''python-version'', ''3.11'')]]\<rparr>,
      job_steps =
        [uses_step None ''actions/checkout@v3'',
         uses_step (Some ''Set up Python ${{ matrix.python-version }}'') ''actions/setup-python@v4'',
         run_step ''Get week and year'' None,
         uses_step (Some ''Cached virtual environment'') ''actions/cache@v3'',
         run_step ''Install Dependencies for cache''
           (Some (Neq (Ctx ''steps.venv_cache.outputs.cache-hit'') (Lit ''true''))),
         run_step ''Install Flax'' None,
         \<lparr>step_name = Some ''Cached mypy cache'', step_uses = Some ''actions/cache@v3'',
          step_if = Some (Eq (Ctx ''matrix.test-type'') (Lit ''mypy''))\<rparr>,
         run_step ''Test with ${{ matrix.test-type }}'' None,
         \<lparr>step_name = Some ''Upload coverage to Codecov'', step_uses = Some ''codecov/codecov-action@v1'',
          step_if = Some (Eq (Ctx ''matrix.test-type'') (Lit ''pytest''))\<rparr>,
         run_step ''Report success or failure as github status'' (Some Always)]\<rparr>"

definition build_jobs :: "job list" where
  "build_jobs = [cancel_previous, pre_commit, commit_count, test_import, tests]"

section \<open>The workflow: the order of jobs\<close>

text \<open>
  A run of the workflow moves each job from waiting to running to finished. A job starts
  only when every job of its \<open>needs:\<close> has succeeded, and is skipped when one of
  them has failed or was skipped. A trace of scheduler events is replayed from the state in
  which every job waits; an event that is not allowed there gives \<open>None\<close>.
\<close>

datatype job_status = Waiting | Running | Succeeded | Failed | Skipped

datatype sched_event = Start string | Finish string bool | Skip string

type_synonym run_state = "string \<Rightarrow> job_status"

definition initial :: run_state where
  "initial = (\<lambda>j. Waiting)"

definition find_job :: "job list \<Rightarrow> string \<Rightarrow> job option" where
  "find_job jobs j = find (\<lambda>x. job_id x = j) jobs"

fun sched_step :: "job list \<Rightarrow> run_state \<Rightarrow> sched_event \<Rightarrow> run_state option" where
  "sched_step jobs st (Start j) =
     (case find_job jobs j of
        None \<Rightarrow> None
      | Some x \<Rightarrow>
          if st j = Waiting \<and> list_all (\<lambda>n. st n = Succeeded) (job_needs x)
          then Some (st(j := Running)) else None)"
| "sched_step jobs st (Finish j ok) =
     (if st j = Running then Some (st(j := (if ok then Succeeded else Failed))) else None)"
| "sched_step jobs st (Skip j) =
     (case find_job jobs j of
        None \<Rightarrow> None
      | Some x \<Rightarrow>
          if st j = Waiting \<and> list_ex (\<lambda>n. st n = Failed \<or> st n = Skipped) (job_needs x)
          then Some (st(j := Skipped)) else None)"

fun sched_run :: "job list \<Rightarrow> run_state \<Rightarrow> sched_event list \<Rightarrow> run_state option" where
  "sched_run jobs st [] = Some st"
| "sched_run jobs st (e # es) =
     (case sched_step jobs st e of None \<Rightarrow> None | Some st' \<Rightarrow> sched_run jobs st' es)"



text \<open>
  A run in which the four jobs without \<open>needs:\<close> start and succeed in some order,
  before the tests job starts and succeeds.
\<close>

definition example_prefix :: "sched_event list" where
  "example_prefix =
     [Start ''cancel-previous'', Start ''pre-commit'', Finish ''cancel-previous'' True,
      Start ''commit-count'', Start ''test-import'', Finish ''pre-commit'' True,
      Finish ''test-import'' True, Finish ''commit-count'' True]"

section \<open>The documentation index of the layers\<close>

text \<open>
  The index page is a sequence of section titles and directives: \<open>flax_module\<close> with
  its \<open>:module:\<close> and \<open>:class:\<close>, \<open>autofunction\<close> with a name, and
  \<open>autosummary\<close> with its \<open>:template:\<close> (when it has one) and its entries.
\<close>

datatype directive =
    Title string
  | Flax_module string string
  | Autofunction string
  | Autosummary "string option" "string list"

definition layers_index :: "directive list" where
  "layers_index =
     [Title ''Layers'',
      Title ''Linear Modules'',
      Flax_module ''flax.linen'' ''Dense'',
      Flax_module ''flax.linen'' ''DenseGeneral'',
      Flax_module ''flax.linen'' ''Conv'',
      Flax_module ''flax.linen'' ''ConvTranspose'',
      Flax_module ''flax.linen'' ''ConvLocal'',
      Flax_module ''flax.linen'' ''Embed'',
      Title ''Pooling'',
      Autofunction ''max_pool'',
      Autofunction ''avg_pool'',
      Autofunction ''pool'',
      Title ''Normalization'',
      Flax_module ''flax.linen'' ''BatchNorm'',
      Flax_module ''flax.linen'' ''LayerNorm'',
      Flax_module ''flax.linen'' ''GroupNorm'',
      Flax_module ''flax.linen'' ''RMSNorm'',
      Flax_module ''flax.linen'' ''InstanceNorm'',
      Flax_module ''flax.linen'' ''SpectralNorm'',
      Flax_module ''flax.linen'' ''WeightNorm'',
      Title ''Combinators'',
      Flax_module ''flax.linen'' ''Sequential'',
      Title ''Stochastic'',
      Flax_module ''flax.linen'' ''Dropout'',
      Title ''Attention'',
      Flax_module ''flax.linen'' ''MultiHeadDotProductAttention'',
      Flax_module ''flax.linen'' ''MultiHeadAttention'',
      Flax_module ''flax.linen'' ''SelfAttention'',
      Autofunction ''dot_product_attention_weights'',
      Autofunction ''dot_product_attention'',
      Autofunction ''make_attention_mask'',
      Autofunction ''make_causal_mask'',
      Title ''Recurrent'',
      Flax_module ''flax.linen'' ''RNNCellBase'',
      Flax_module ''flax.linen'' ''LSTMCell'',
      Flax_module ''flax.linen'' ''OptimizedLSTMCell'',
      Flax_module ''flax.linen'' ''GRUCell'',
      Flax_module ''flax.linen'' ''MGUCell'',
      Flax_module ''flax.linen'' ''RNN'',
      Flax_module ''flax.linen'' ''Bidirectional'',
      Title ''BatchApply'',
      Flax_module ''flax.linen'' ''BatchApply'',
      Autosummary (Some ''flax_module'')
        [''Dense'', ''DenseGeneral'', ''Conv'', ''ConvTranspose'', ''ConvLocal'', ''Embed'',
         ''BatchNorm'', ''LayerNorm'', ''GroupNorm'', ''RMSNorm'', ''SpectralNorm'', ''WeightNorm'',
         ''Sequential'', ''Dropout'', ''MultiHeadDotProductAttention'', ''MultiHeadAttention'',
         ''SelfAttention'', ''RNNCellBase'', ''LSTMCell'', ''OptimizedLSTMCell'', ''GRUCell'',
         ''RNN'', ''Bidirectional''],
      Autosummary None
        [''max_pool'', ''avg_pool'', ''pool'', ''dot_product_attention_weights'',
         ''dot_product_attention'', ''make_attention_mask'', ''make_causal_mask'']]"

fun documented_classes :: "directive list \<Rightarrow> string list" where
  "documented_classes [] = []"
| "documented_classes (Flax_module m c # ds) = c # documented_classes ds"
| "documented_classes (d # ds) = documented_classes ds"

fun documented_functions :: "directive list \<Rightarrow> string list" where
  "documented_functions [] = []"
| "documented_functions (Autofunction f # ds) = f # documented_functions ds"
| "documented_functions (d # ds) = documented_functions ds"

fun summary_entries :: "directive list \<Rightarrow> string list" where
  "summary_entries [] = []"
| "summary_entries (Autosummary t es # ds) = es @ summary_entries ds"
| "summary_entries (d # ds) = summary_entries ds"

text \<open>The documented classes that no summary lists.\<close>

definition unlisted_classes :: "directive list \<Rightarrow> string list" where
  "unlisted_classes ds = filter (\<lambda>c. c \<notin> set (summary_entries ds)) (documented_classes ds)"

section \<open>Theorems\<close>

subsection \<open>The shell steps and the step conditions\<close>

text \<open>
  Claim C8. The commit-count step leaves with status 1 exactly when the count printed by
  \<open>git rev-list --count origin/main...commit-count\<close> is greater than 6, and falls
  through without error when it is 6 or fewer; the bound it tests is one more than the 5
  commits its comment and its message speak of, so a count of 6 passes.
\<close>

theorem commit_count_exit_iff:
  "((\<exists>msgs. commit_count_step diff = Exits msgs 1) \<longleftrightarrow> 6 < diff)
   \<and> (commit_count_step diff = Completed \<longleftrightarrow> diff \<le> 6)
   \<and> commit_count_step (Suc allowed_commits) = Completed"
  by (simp add: commit_count_step_def allowed_commits_def)

text \<open>
  Claim C9. The cancel-previous job has one step, the cancel action, and it runs exactly
  when \<open>github.ref\<close> is not the string \<open>refs/head/main\<close>. The ref of a push to
  main is \<open>refs/heads/main\<close>, which is another string, so the step runs for pushes to
  main too. (The comparison is taken as equality of strings; the service compares
  without regard to letter case, which makes no difference for a ref that begins with
  \<open>refs/heads/\<close>.)
\<close>

theorem cancel_step_enabled_iff:
  "job_steps cancel_previous = [cancel_step]
   \<and> (step_enabled ctx cancel_step \<longleftrightarrow> ctx ''github.ref'' \<noteq> ''refs/head/main'')
   \<and> step_enabled (ctx(''github.ref'' := branch_ref ''main'')) cancel_step"
  by (simp add: cancel_previous_def cancel_step_def step_enabled_def branch_ref_def)

text \<open>
  Claim C10. For every input \<open>x\<close> (and every forward pass \<open>f\<close> of the linear layer),
  a call of a CounterLinear module adds 1 to its \<open>count\<close> (in 32-bit arithmetic, as
  the counter is an int32), leaves \<open>linear.kernel\<close> and \<open>linear.bias\<close> as they
  were, and returns what the linear layer gives at \<open>x\<close> with those parameters.
  After the first call of a new module the counter is 1, as the notebook prints.
\<close>

theorem CounterLinear_call_effect:
  "count (snd (CounterLinear_call f m x)) = count m + 1
   \<and> kernel (linear (snd (CounterLinear_call f m x))) = kernel (linear m)
   \<and> bias (linear (snd (CounterLinear_call f m x))) = bias (linear m)
   \<and> fst (CounterLinear_call f m x) = f (linear m) x
   \<and> count (snd (CounterLinear_call f (CounterLinear_init lin) x)) = 1"
  by (simp add: CounterLinear_call_def CounterLinear_init_def Let_def)

text \<open>
  Claim C5. For each of the four test types the test step runs
  \<open>tests/run_all_tests.sh\<close> with exactly these flags, each once: the three
  \<open>--no-<x>\<close> of the other three types, \<open>--use-venv\<close>, and \<open>--with-cov\<close> when
  (and only when) the type is pytest. For any other value it prints "Unknown test type"
  and exits with status 1.
\<close>

theorem tests_step_flags:
  "(t \<in> set test_types \<longrightarrow>
      (\<exists>args. tests_step t = Runs ''tests/run_all_tests.sh'' args \<and> distinct args
         \<and> set args = expected_flags t))
   \<and> (t \<notin> set test_types \<longrightarrow> tests_step t = Exits [''Unknown test type: '' @ t] 1)"
proof -
  consider "t = ''doctest''" | "t = ''pytest''" | "t = ''pytype''" | "t = ''mypy''"
    | "t \<notin> set test_types"
    by (auto simp add: test_types_def)
  then show ?thesis
  proof cases
    case 1 then show ?thesis
      by (simp add: test_types_def tests_step_def expected_flags_def no_flag_def
          insert_Diff_if insert_commute)
  next
    case 2 then show ?thesis
      by (simp add: test_types_def tests_step_def expected_flags_def no_flag_def
          insert_Diff_if insert_commute)
  next
    case 3 then show ?thesis
      by (simp add: test_types_def tests_step_def expected_flags_def no_flag_def
          insert_Diff_if insert_commute)
  next
    case 4 then show ?thesis
      by (simp add: test_types_def tests_step_def expected_flags_def no_flag_def
          insert_Diff_if insert_commute)
  next
    case 5 then show ?thesis
      by (simp add: test_types_def tests_step_def)
  qed
qed

theorem tests_step_flags_witness:
  "''pytest'' \<in> set test_types
   \<and> tests_step ''pytest'' = Runs ''tests/run_all_tests.sh''
        [''--no-doctest'', ''--no-pytype'', ''--no-mypy'', ''--with-cov'', ''--use-venv'']
   \<and> expected_flags ''pytest''
        = {''--no-doctest'', ''--no-pytype'', ''--no-mypy'', ''--with-cov'', ''--use-venv''}
   \<and> ''lint'' \<notin> set test_types
   \<and> tests_step ''lint'' = Exits [''Unknown test type: lint''] 1"
proof -
  have a: "''pytest'' \<in> set test_types" by (simp add: test_types_def)
  have b: "''lint'' \<notin> set test_types" by (simp add: test_types_def)
  have c: "tests_step ''pytest'' = Runs ''tests/run_all_tests.sh''
        [''--no-doctest'', ''--no-pytype'', ''--no-mypy'', ''--with-cov'', ''--use-venv'']"
    by (simp add: tests_step_def)
  from a tests_step_flags [of "''pytest''"] c
  have d: "expected_flags ''pytest''
        = {''--no-doctest'', ''--no-pytype'', ''--no-mypy'', ''--with-cov'', ''--use-venv''}"
    by auto
  from b tests_step_flags [of "''lint''"]
  have e: "tests_step ''lint'' = Exits [''Unknown test type: lint''] 1" by simp
  from a b c d e show ?thesis by simp
qed

subsection \<open>Triggers\<close>

lemma glob_star: "glob_match ''*'' s = (CHR ''/'' \<notin> set s)"
  by (induction s) auto

lemma glob_cons:
  "c \<noteq> CHR ''*'' \<Longrightarrow> glob_match (c # p) s = (\<exists>r. s = c # r \<and> glob_match p r)"
  by (cases s) auto

lemma glob_prefix:
  "CHR ''*'' \<notin> set p \<Longrightarrow> glob_match (p @ q) s = (\<exists>r. s = p @ r \<and> glob_match q r)"
proof (induction p arbitrary: s)
  case Nil
  then show ?case by simp
next
  case (Cons c p)
  then have c: "c \<noteq> CHR ''*''" and p: "CHR ''*'' \<notin> set p" by auto
  have "glob_match ((c # p) @ q) s = (\<exists>r. s = c # r \<and> glob_match (p @ q) r)"
    using c by (simp add: glob_cons del: glob_match.simps)
  also have "\<dots> = (\<exists>r. s = c # r \<and> (\<exists>t. r = p @ t \<and> glob_match q t))"
    using Cons.IH [OF p] by simp
  also have "\<dots> = (\<exists>t. s = (c # p) @ t \<and> glob_match q t)"
    by auto
  finally show ?case .
qed

lemma glob_literal: "CHR ''*'' \<notin> set p \<Longrightarrow> glob_match p s = (s = p)"
  using glob_prefix [of p "[]" s] by auto

lemma glob_test_star:
  "glob_match ''test_*'' b = (\<exists>r. b = ''test_'' @ r \<and> CHR ''/'' \<notin> set r)"
proof -
  have "glob_match (''test_'' @ ''*'') b = (\<exists>r. b = ''test_'' @ r \<and> glob_match ''*'' r)"
    by (rule glob_prefix) simp
  then show ?thesis by (simp only: glob_star append.simps)
qed

text \<open>
  Claim C4. The workflow is triggered by a push to the branch main or to a branch that
  matches \<open>test_*\<close> (the prefix \<open>test_\<close> and then no \<open>/\<close>), by a pull request
  whose base branch is main, and by no other event.
\<close>

theorem triggered_iff:
  "triggered build_on ev \<longleftrightarrow>
     (\<exists>b. ev = Push_branch b \<and> (b = ''main'' \<or> (\<exists>r. b = ''test_'' @ r \<and> CHR ''/'' \<notin> set r)))
     \<or> ev = Pull_request ''main''"
proof (cases ev)
  case (Push_branch b)
  have "glob_match ''main'' b = (b = ''main'')" by (rule glob_literal) simp
  then show ?thesis using Push_branch
    by (simp add: triggered_def build_on_def glob_test_star del: glob_match.simps)
next
  case (Push_tag t)
  then show ?thesis by (simp add: triggered_def build_on_def)
next
  case (Pull_request b)
  have "glob_match ''main'' b = (b = ''main'')" by (rule glob_literal) simp
  then show ?thesis using Pull_request
    by (simp add: triggered_def build_on_def del: glob_match.simps)
next
  case (Other_event n)
  then show ?thesis by (simp add: triggered_def build_on_def split: option.splits)
qed

subsection \<open>The order of jobs\<close>

lemma sched_run_append:
  "sched_run jobs st (xs @ ys) =
     (case sched_run jobs st xs of None \<Rightarrow> None | Some st' \<Rightarrow> sched_run jobs st' ys)"
  by (induction xs arbitrary: st) (auto split: option.splits)

lemma sched_step_succeeded:
  "sched_step jobs st e = Some st' \<Longrightarrow> st' j = Succeeded
     \<Longrightarrow> st j = Succeeded \<or> e = Finish j True"
  by (cases e) (auto split: option.splits if_splits)

lemma sched_run_succeeded:
  "sched_run jobs st evs = Some st' \<Longrightarrow> st' j = Succeeded
     \<Longrightarrow> st j = Succeeded \<or> Finish j True \<in> set evs"
proof (induction evs arbitrary: st)
  case Nil
  then show ?case by simp
next
  case (Cons e evs)
  from Cons.prems(1) obtain st1 where s1: "sched_step jobs st e = Some st1"
    and r: "sched_run jobs st1 evs = Some st'"
    by (auto split: option.splits)
  from Cons.IH [OF r Cons.prems(2)] have "st1 j = Succeeded \<or> Finish j True \<in> set evs" .
  then show ?case
  proof
    assume "st1 j = Succeeded"
    with sched_step_succeeded [OF s1] show ?thesis by auto
  next
    assume "Finish j True \<in> set evs"
    then show ?thesis by simp
  qed
qed

lemma find_job_tests: "find_job build_jobs ''tests'' = Some tests"
  by (simp add: find_job_def build_jobs_def cancel_previous_def pre_commit_def commit_count_def
      test_import_def tests_def)

lemma start_tests_needs:
  assumes "sched_step build_jobs st (Start ''tests'') = Some st'"
  shows "st ''cancel-previous'' = Succeeded \<and> st ''pre-commit'' = Succeeded
         \<and> st ''commit-count'' = Succeeded \<and> st ''test-import'' = Succeeded"
  using assms by (simp add: find_job_tests split: if_splits) (simp add: tests_def)

text \<open>
  Claim C6. In every run of the workflow, whenever the tests job starts, the cancellation
  job, the pre-commit job, the commit-count job and the import smoke-test job have each
  finished before (and finished with success): in a trace the scheduler allows, the
  events before \<open>Start tests\<close> hold the four \<open>Finish\<close> events.
\<close>

theorem tests_start_after_needs:
  assumes "sched_run build_jobs initial (pre @ Start ''tests'' # post) = Some st"
  shows "Finish ''cancel-previous'' True \<in> set pre \<and> Finish ''pre-commit'' True \<in> set pre
         \<and> Finish ''commit-count'' True \<in> set pre \<and> Finish ''test-import'' True \<in> set pre"
proof -
  from assms obtain st0 st1 where pre: "sched_run build_jobs initial pre = Some st0"
    and start: "sched_step build_jobs st0 (Start ''tests'') = Some st1"
    by (auto simp add: sched_run_append split: option.splits)
  have fin: "Finish j True \<in> set pre" if "st0 j = Succeeded" for j
    using sched_run_succeeded [OF pre that] by (simp add: initial_def)
  from start_tests_needs [OF start] show ?thesis by (simp add: fin)
qed

theorem tests_start_after_needs_witness:
  "sched_run build_jobs initial (example_prefix @ Start ''tests'' # [Finish ''tests'' True]) \<noteq> None
   \<and> Finish ''cancel-previous'' True \<in> set example_prefix
   \<and> Finish ''pre-commit'' True \<in> set example_prefix
   \<and> Finish ''commit-count'' True \<in> set example_prefix
   \<and> Finish ''test-import'' True \<in> set example_prefix"
proof -
  have run: "sched_run build_jobs initial
      (example_prefix @ Start ''tests'' # [Finish ''tests'' True]) \<noteq> None"
    by (simp add: example_prefix_def initial_def find_job_def build_jobs_def cancel_previous_def
        pre_commit_def commit_count_def test_import_def tests_def)
  then obtain st where "sched_run build_jobs initial
      (example_prefix @ Start ''tests'' # [Finish ''tests'' True]) = Some st"
    by auto
  from tests_start_after_needs [OF this] run show ?thesis by simp
qed

subsection \<open>The documentation index\<close>

text \<open>
  Claim C7. Every layer class that the index documents with a \<open>flax_module\<close>
  directive should also stand in a summary listing. The file misses three: evaluated on
  the file, the documented classes that no \<open>autosummary\<close> lists are InstanceNorm,
  MGUCell and BatchApply.
\<close>

theorem layers_index_unlisted:
  "unlisted_classes layers_index = [''InstanceNorm'', ''MGUCell'', ''BatchApply'']"
  by (simp add: unlisted_classes_def layers_index_def)

subsection \<open>Jobs, the matrix and the error branches\<close>

text \<open>
  Claim C3, as stated, asks for a pytype run and a mypy run for every Python version of
  the matrix. The matrix excludes some: there is no pytype run for Python 3.11.
\<close>

theorem no_pytype_run_for_3_11:
  "[(''python-version'', ''3.11''), (''test-type'', ''pytype'')] \<notin> set (matrix_runs tests)"
  by (simp add: matrix_runs_def tests_def excluded_def)

text \<open>
  Claim C3, amended. The workflow's jobs are, in this order, the cancellation of previous
  runs, the pre-commit checks, the commit-count check, the import smoke test (one run for
  each of Python 3.9, 3.10 and 3.11) and the tests job, whose matrix has nine runs:
  doctest and pytest for each of the three Python versions, mypy for 3.9 and 3.10, and
  pytype for 3.9 only.
\<close>

theorem build_jobs_and_matrix:
  "map job_id build_jobs
     = [''cancel-previous'', ''pre-commit'', ''commit-count'', ''test-import'', ''tests'']
   \<and> map job_name build_jobs
     = [''Cancel Previous Runs'', ''Test pre-commit hooks'', ''Check commit count'',
        ''Test import standalone'', ''Run Tests'']
   \<and> matrix_runs test_import
     = [[(''python-version'', ''3.9'')], [(''python-version'', ''3.10'')],
        [(''python-version'', ''3.11'')]]
   \<and> matrix_runs tests
     = [[(''python-version'', ''3.9''), (''test-type'', ''doctest'')],
        [(''python-version'', ''3.9''), (''test-type'', ''pytest'')],
        [(''python-version'', ''3.9''), (''test-type'', ''pytype'')],
        [(''python-version'', ''3.9''), (''test-type'', ''mypy'')],
        [(''python-version'', ''3.10''), (''test-type'', ''doctest'')],
        [(''python-version'', ''3.10''), (''test-type'', ''pytest'')],
        [(''python-version'', ''3.10''), (''test-type'', ''mypy'')],
        [(''python-version'', ''3.11''), (''test-type'', ''doctest'')],
        [(''python-version'', ''3.11''), (''test-type'', ''pytest'')]]"
  by (simp add: build_jobs_def cancel_previous_def pre_commit_def commit_count_def
      test_import_def tests_def matrix_runs_def excluded_def)








subsection \<open>Split and merge\<close>

lemma index_of_append: "a \<in> set xs \<Longrightarrow> index_of (xs @ ys) a = index_of xs a"
  by (induction xs) auto

lemma index_of_new: "a \<notin> set xs \<Longrightarrow> index_of (xs @ a # ys) a = length xs"
  by (induction xs) auto

lemma index_of_less: "a \<in> set xs \<Longrightarrow> index_of xs a < length xs"
  by (induction xs) auto

lemma index_of_nth: "a \<in> set xs \<Longrightarrow> xs ! index_of xs a = a"
  by (induction xs) auto

lemma index_of_inj: "a \<in> set xs \<Longrightarrow> b \<in> set xs \<Longrightarrow> index_of xs a = index_of xs b \<Longrightarrow> a = b"
  using index_of_nth by metis

lemma split_node_cases:
  assumes "split_node fuel h seen p a = Some (g, es, seen')"
  obtains (old) "a \<in> set seen" "g = Index (index_of seen a)" "es = []" "seen' = seen"
  | (new) n obj gs es1 where "a \<notin> set seen" "fuel = Suc n" "map_of h a = Some obj"
      "split_subs n h (seen @ [a]) p (obj_submodules obj) = Some (gs, es1, seen')"
      "g = GraphDef (obj_type obj) (length seen) (obj_static_fields obj)
             (map (\<lambda>(n, c, v). (n, c)) (obj_variables obj)) gs"
      "es = map (\<lambda>(n, c, v). (p @ n, v)) (obj_variables obj) @ es1"
proof (cases "a \<in> set seen")
  case True
  with assms have "g = Index (index_of seen a) \<and> es = [] \<and> seen' = seen"
    by (cases fuel) auto
  with True old show ?thesis by blast
next
  case False
  with assms obtain n where n: "fuel = Suc n" by (cases fuel) auto
  with assms False obtain obj where obj: "map_of h a = Some obj"
    by (auto split: option.splits)
  with assms False n obtain gs es1 where
    "split_subs n h (seen @ [a]) p (obj_submodules obj) = Some (gs, es1, seen')"
    "g = GraphDef (obj_type obj) (length seen) (obj_static_fields obj)
             (map (\<lambda>(n, c, v). (n, c)) (obj_variables obj)) gs"
    "es = map (\<lambda>(n, c, v). (p @ n, v)) (obj_variables obj) @ es1"
    by (auto split: option.splits)
  with False n obj new show ?thesis by blast
qed

lemma split_subs_cons:
  assumes "split_subs fuel h seen p ((n, a) # rest) = Some (gs, es, seen')"
  obtains g es1 seen1 gs' es2 where
    "split_node fuel h seen (p @ n @ ''/'') a = Some (g, es1, seen1)"
    "split_subs fuel h seen1 p rest = Some (gs', es2, seen')"
    "gs = (n, g) # gs'" "es = es1 @ es2"
  using assms by (auto split: option.splits)

lemma extends_refl: "extends h seen seen"
  by (simp add: extends_def)

lemma extends_trans: "extends h s1 s2 \<Longrightarrow> extends h s2 s3 \<Longrightarrow> extends h s1 s3"
proof -
  assume "extends h s1 s2" and "extends h s2 s3"
  then obtain n1 n2 where 1: "s2 = s1 @ n1" "distinct n1" "set n1 \<inter> set s1 = {}" "set n1 \<subseteq> fst ` set h"
    and 2: "s3 = s2 @ n2" "distinct n2" "set n2 \<inter> set s2 = {}" "set n2 \<subseteq> fst ` set h"
    unfolding extends_def by blast
  have "s3 = s1 @ (n1 @ n2)" using 1(1) 2(1) by simp
  moreover have "distinct (n1 @ n2)" using 1(1,2) 2(2,3) by auto
  moreover have "set (n1 @ n2) \<inter> set s1 = {}" using 1(1,3) 2(3) by auto
  moreover have "set (n1 @ n2) \<subseteq> fst ` set h" using 1(4) 2(4) by simp
  ultimately show ?thesis unfolding extends_def by blast
qed

lemma extends_step:
  assumes "a \<notin> set seen" and "a \<in> fst ` set h" and "extends h (seen @ [a]) seen'"
  shows "extends h seen seen'"
proof -
  have "extends h seen (seen @ [a])" using assms(1,2) by (simp add: extends_def)
  with assms(3) show ?thesis by (rule extends_trans [rotated])
qed

lemma extends_subset: "extends h seen seen' \<Longrightarrow> set seen \<subseteq> set seen'"
  by (auto simp add: extends_def)

lemma extends_index: "extends h seen seen' \<Longrightarrow> a \<in> set seen \<Longrightarrow> index_of seen' a = index_of seen a"
  by (auto simp add: extends_def index_of_append)

lemma split_extends:
  "\<forall>g es seen'. split_node fuel (h :: (nat \<times> 'v Obj) list) seen p a = Some (g, es, seen')
      \<longrightarrow> extends h seen seen' \<and> a \<in> set seen'"
  "\<forall>gs es seen'. split_subs fuel (h :: (nat \<times> 'v Obj) list) seen p subs = Some (gs, es, seen')
      \<longrightarrow> extends h seen seen' \<and> snd ` set subs \<subseteq> set seen'"
proof (induction fuel h seen p a and fuel h seen p subs rule: split_node_split_subs.induct)
  case (1 h seen p a)
  show ?case
  proof (intro allI impI)
    fix g es seen'
    assume eq: "split_node 0 h seen p a = Some (g, es, seen')"
    show "extends h seen seen' \<and> a \<in> set seen'"
      by (cases rule: split_node_cases [OF eq]) (simp_all add: extends_refl)
  qed
next
  case (2 fuel h seen p a)
  show ?case
  proof (intro allI impI)
    fix g es seen'
    assume eq: "split_node (Suc fuel) h seen p a = Some (g, es, seen')"
    show "extends h seen seen' \<and> a \<in> set seen'"
    proof (cases rule: split_node_cases [OF eq])
      case 1
      then show ?thesis by (simp add: extends_refl)
    next
      case new: (2 n obj gs es1)
      from new(2) have n: "n = fuel" by simp
      from "2.IH" [OF new(1,3), rule_format, OF new(4) [unfolded n]]
      have e: "extends h (seen @ [a]) seen'" by blast
      from new(3) have "a \<in> fst ` set h" by (force dest: map_of_SomeD)
      from extends_step [OF new(1) this e] have "extends h seen seen'" .
      moreover have "set (seen @ [a]) \<subseteq> set seen'" using e by (rule extends_subset)
      then have "a \<in> set seen'" by simp
      ultimately show ?thesis by simp
    qed
  qed
next
  case (3 fuel h seen p)
  show ?case by (simp add: extends_refl)
next
  case (4 fuel h seen p n a rest)
  show ?case
  proof (intro allI impI)
    fix gs es seen'
    assume "split_subs fuel h seen p ((n, a) # rest) = Some (gs, es, seen')"
    then obtain g es1 seen1 gs' es2 where
      node: "split_node fuel h seen (p @ n @ ''/'') a = Some (g, es1, seen1)"
      and rest: "split_subs fuel h seen1 p rest = Some (gs', es2, seen')"
      by (rule split_subs_cons)
    from "4.IH"(1) [rule_format, OF node] have 1: "extends h seen seen1" "a \<in> set seen1" by blast+
    from "4.IH"(2) [OF node refl refl, rule_format, OF rest]
    have 2: "extends h seen1 seen'" "snd ` set rest \<subseteq> set seen'" by blast+
    from 1(1) 2(1) have "extends h seen seen'" by (rule extends_trans)
    moreover have "set seen1 \<subseteq> set seen'" using 2(1) by (rule extends_subset)
    with 1(2) have "a \<in> set seen'" by (rule rev_subsetD)
    ultimately show "extends h seen seen' \<and> snd ` set ((n, a) # rest) \<subseteq> set seen'"
      using 2(2) by simp
  qed
qed

lemma merge_vars_entries:
  "\<forall>n c v. (n, c, v) \<in> set vs \<longrightarrow> st (p @ n) = Some v
     \<Longrightarrow> merge_vars p (map (\<lambda>(n, c, v). (n, c)) vs) st = Some vs"
  by (induction vs) auto

lemma var_entries_mem:
  "(n, c, v) \<in> set vs \<Longrightarrow> (p @ n, v) \<in> set (map (\<lambda>(n, c, v). (p @ n, v)) vs)"
  by (induction vs) auto

lemma extends_new:
  assumes "extends h seen seen'"
  shows "seen' = seen @ drop (length seen) seen'"
  using assms by (auto simp add: extends_def)

lemma rename_obj_eq:
  "rename_obj f obj = Obj (obj_type obj) (obj_static_fields obj) (obj_variables obj)
       (map (\<lambda>(n, a). (n, f a)) (obj_submodules obj))"
  by (simp add: rename_obj_def)

lemma merge_split:
  "\<forall>g es seen'. split_node fuel (h :: (nat \<times> 'v Obj) list) seen p a = Some (g, es, seen')
      \<longrightarrow> (\<forall>k v. (k, v) \<in> set es \<longrightarrow> st k = Some v) \<longrightarrow> (\<exists>r. final = seen' @ r)
      \<longrightarrow> gd_index g = index_of final a
          \<and> merge_node p g st =
                Some (map (\<lambda>b. (index_of final b, rename_obj (index_of final) (the (map_of h b))))
                        (drop (length seen) seen'))"
  "\<forall>gs es seen'. split_subs fuel (h :: (nat \<times> 'v Obj) list) seen p subs = Some (gs, es, seen')
      \<longrightarrow> (\<forall>k v. (k, v) \<in> set es \<longrightarrow> st k = Some v) \<longrightarrow> (\<exists>r. final = seen' @ r)
      \<longrightarrow> map (\<lambda>(n, g). (n, gd_index g)) gs = map (\<lambda>(n, b). (n, index_of final b)) subs
          \<and> merge_subs p gs st =
                Some (map (\<lambda>b. (index_of final b, rename_obj (index_of final) (the (map_of h b))))
                        (drop (length seen) seen'))"
proof (induction fuel h seen p a and fuel h seen p subs rule: split_node_split_subs.induct)
  case (1 h seen p a)
  show ?case
  proof (intro allI impI)
    fix g es seen'
    assume eq: "split_node 0 h seen p a = Some (g, es, seen')"
      and fin: "\<exists>r. final = seen' @ r"
    show "gd_index g = index_of final a
          \<and> merge_node p g st =
                Some (map (\<lambda>b. (index_of final b, rename_obj (index_of final) (the (map_of h b))))
                        (drop (length seen) seen'))"
    proof (cases rule: split_node_cases [OF eq])
      case 1
      with fin show ?thesis by (auto simp add: index_of_append)
    next
      case (2 n obj gs es1)
      then show ?thesis by simp
    qed
  qed
next
  case (2 fuel h seen p a)
  let ?F = "\<lambda>b. (index_of final b, rename_obj (index_of final) (the (map_of h b)))"
  show ?case
  proof (intro allI impI)
    fix g es seen'
    assume eq: "split_node (Suc fuel) h seen p a = Some (g, es, seen')"
      and st: "\<forall>k v. (k, v) \<in> set es \<longrightarrow> st k = Some v"
      and fin: "\<exists>r. final = seen' @ r"
    show "gd_index g = index_of final a \<and> merge_node p g st = Some (map ?F (drop (length seen) seen'))"
    proof (cases rule: split_node_cases [OF eq])
      case 1
      with fin show ?thesis by (auto simp add: index_of_append)
    next
      case new: (2 n obj gs es1)
      from new(2) have n: "n = fuel" by simp
      note sub = new(4) [unfolded n]
      from st new(6) have st1: "\<forall>k v. (k, v) \<in> set es1 \<longrightarrow> st k = Some v" by simp
      from "2.IH" [OF new(1,3), rule_format, OF sub st1 [rule_format] fin]
      have ix: "map (\<lambda>(n, g). (n, gd_index g)) gs
                  = map (\<lambda>(n, b). (n, index_of final b)) (obj_submodules obj)"
        and ms: "merge_subs p gs st = Some (map ?F (drop (length (seen @ [a])) seen'))"
        by blast+
      from split_extends(2) [rule_format, OF sub] have "extends h (seen @ [a]) seen'" by blast
      from extends_new [OF this] have s': "seen' = seen @ a # drop (Suc (length seen)) seen'"
        by simp
      with fin obtain r where "final = seen @ a # (drop (Suc (length seen)) seen' @ r)"
        by (metis append.assoc append_Cons)
      with new(1) have fa: "index_of final a = length seen" by (simp add: index_of_new)
      have "\<forall>n c v. (n, c, v) \<in> set (obj_variables obj) \<longrightarrow> st (p @ n) = Some v"
        using st new(6) var_entries_mem [of _ _ _ "obj_variables obj" p] by auto
      then have mv: "merge_vars p (map (\<lambda>(n, c, v). (n, c)) (obj_variables obj)) st
          = Some (obj_variables obj)"
        by (rule merge_vars_entries)
      have d: "drop (length seen) seen' = a # drop (Suc (length seen)) seen'"
        using s' by (metis append_eq_conv_conj)
      have Fa: "?F a = (length seen, Obj (obj_type obj) (obj_static_fields obj) (obj_variables obj)
                         (map (\<lambda>(n, g). (n, gd_index g)) gs))"
        using fa new(3) ix by (simp add: rename_obj_eq)
      have "merge_node p g st = Some (?F a # map ?F (drop (Suc (length seen)) seen'))"
        unfolding new(5) Fa using mv ms by simp
      with d fa new(5) show ?thesis by simp
    qed
  qed
next
  case (3 fuel h seen p)
  show ?case by simp
next
  case (4 fuel h seen p n a rest)
  let ?F = "\<lambda>b. (index_of final b, rename_obj (index_of final) (the (map_of h b)))"
  show ?case
  proof (intro allI impI)
    fix gs es seen'
    assume eq: "split_subs fuel h seen p ((n, a) # rest) = Some (gs, es, seen')"
      and st: "\<forall>k v. (k, v) \<in> set es \<longrightarrow> st k = Some v"
      and fin: "\<exists>r. final = seen' @ r"
    from eq obtain g es1 seen1 gs' es2 where
      node: "split_node fuel h seen (p @ n @ ''/'') a = Some (g, es1, seen1)"
      and rest: "split_subs fuel h seen1 p rest = Some (gs', es2, seen')"
      and gs: "gs = (n, g) # gs'" and es: "es = es1 @ es2"
      by (rule split_subs_cons)
    from st es have st1: "\<forall>k v. (k, v) \<in> set es1 \<longrightarrow> st k = Some v"
      and st2: "\<forall>k v. (k, v) \<in> set es2 \<longrightarrow> st k = Some v" by simp_all
    from split_extends(1) [rule_format, OF node] have e1: "extends h seen seen1" by blast
    from split_extends(2) [rule_format, OF rest] have e2: "extends h seen1 seen'" by blast
    from extends_new [OF e1] have s1: "seen1 = seen @ drop (length seen) seen1" .
    from extends_new [OF e2] have s2: "seen' = seen1 @ drop (length seen1) seen'" .
    from fin s2 have fin1: "\<exists>r. final = seen1 @ r" by (metis append.assoc)
    from "4.IH"(1) [rule_format, OF node st1 [rule_format] fin1]
    have a1: "gd_index g = index_of final a"
      and m1: "merge_node (p @ n @ ''/'') g st = Some (map ?F (drop (length seen) seen1))"
      by blast+
    from "4.IH"(2) [OF node refl refl, rule_format, OF rest st2 [rule_format] fin]
    have a2: "map (\<lambda>(n, g). (n, gd_index g)) gs' = map (\<lambda>(n, b). (n, index_of final b)) rest"
      and m2: "merge_subs p gs' st = Some (map ?F (drop (length seen1) seen'))"
      by blast+
    have "drop (length seen) seen' = drop (length seen) seen1 @ drop (length seen1) seen'"
      using s1 s2 by (metis append.assoc append_eq_conv_conj)
    then show "map (\<lambda>(n, g). (n, gd_index g)) gs = map (\<lambda>(n, b). (n, index_of final b)) ((n, a) # rest)
          \<and> merge_subs p gs st = Some (map ?F (drop (length seen) seen'))"
      using gs a1 a2 m1 m2 by simp
  qed
qed

lemma wf_module_heap: "wf_module m \<Longrightarrow> wf_heap (heap m)"
  unfolding wf_module_def wf_heap_def list_all_iff
  by (force dest: map_of_SomeD)

lemma wf_heap_children:
  assumes "wf_heap h" and "map_of h a = Some obj"
  shows "snd ` set (obj_submodules obj) \<subseteq> fst ` set h"
proof -
  from assms have "wf_obj h obj" unfolding wf_heap_def by blast
  then have "list_all (\<lambda>a. a \<in> fst ` set h) (map snd (obj_submodules obj))"
    unfolding wf_obj_def by blast
  then show ?thesis unfolding list_all_iff by auto
qed

lemma split_total:
  "wf_heap (h :: (nat \<times> 'v Obj) list) \<longrightarrow> a \<in> fst ` set h \<longrightarrow> card (fst ` set h - set seen) \<le> fuel
     \<longrightarrow> split_node fuel h seen p a \<noteq> None"
  "wf_heap (h :: (nat \<times> 'v Obj) list) \<longrightarrow> snd ` set subs \<subseteq> fst ` set h
     \<longrightarrow> card (fst ` set h - set seen) \<le> fuel
     \<longrightarrow> split_subs fuel h seen p subs \<noteq> None"
proof (induction fuel h seen p a and fuel h seen p subs rule: split_node_split_subs.induct)
  case (1 h seen p a)
  show ?case
  proof (intro impI)
    assume a: "a \<in> fst ` set h" and c: "card (fst ` set h - set seen) \<le> 0"
    have "finite (fst ` set h - set seen)" by simp
    with c have "fst ` set h - set seen = {}" by simp
    with a have "a \<in> set seen" by blast
    then show "split_node 0 h seen p a \<noteq> None" by simp
  qed
next
  case (2 fuel h seen p a)
  show ?case
  proof (intro impI)
    assume wf: "wf_heap h" and a: "a \<in> fst ` set h"
      and c: "card (fst ` set h - set seen) \<le> Suc fuel"
    show "split_node (Suc fuel) h seen p a \<noteq> None"
    proof (cases "a \<in> set seen")
      case True
      then show ?thesis by simp
    next
      case False
      from a obtain obj where obj: "map_of h a = Some obj"
        by (cases "map_of h a") (auto simp add: map_of_eq_None_iff)
      have sub: "snd ` set (obj_submodules obj) \<subseteq> fst ` set h"
        using wf obj by (rule wf_heap_children)
      have "fst ` set h - set (seen @ [a]) = (fst ` set h - set seen) - {a}" by auto
      moreover have "a \<in> fst ` set h - set seen" using a False by simp
      ultimately have "card (fst ` set h - set (seen @ [a])) = card (fst ` set h - set seen) - 1"
        by (simp add: card_Diff_singleton)
      with c have c': "card (fst ` set h - set (seen @ [a])) \<le> fuel" by simp
      from "2.IH" [OF False obj, rule_format, OF wf sub c']
      obtain r where "split_subs fuel h (seen @ [a]) p (obj_submodules obj) = Some r" by blast
      with False obj show ?thesis by (simp split: prod.splits)
    qed
  qed
next
  case (3 fuel h seen p)
  show ?case by simp
next
  case (4 fuel h seen p n a rest)
  show ?case
  proof (intro impI)
    assume wf: "wf_heap h" and sub: "snd ` set ((n, a) # rest) \<subseteq> fst ` set h"
      and c: "card (fst ` set h - set seen) \<le> fuel"
    from sub have a: "a \<in> fst ` set h" and sub': "snd ` set rest \<subseteq> fst ` set h" by simp_all
    from "4.IH"(1) [rule_format, OF wf a c]
    obtain g es1 seen1 where node: "split_node fuel h seen (p @ n @ ''/'') a = Some (g, es1, seen1)"
      by (cases "split_node fuel h seen (p @ n @ ''/'') a") auto
    from split_extends(1) [rule_format, OF node] have "extends h seen seen1" by blast
    then have "set seen \<subseteq> set seen1" by (rule extends_subset)
    then have "fst ` set h - set seen1 \<subseteq> fst ` set h - set seen" by blast
    then have "card (fst ` set h - set seen1) \<le> card (fst ` set h - set seen)"
      by (intro card_mono) simp_all
    with c have c1: "card (fst ` set h - set seen1) \<le> fuel" by simp
    from "4.IH"(2) [OF node refl refl, rule_format, OF wf sub' c1]
    obtain r where "split_subs fuel h seen1 p rest = Some r" by blast
    with node show "split_subs fuel h seen p ((n, a) # rest) \<noteq> None"
      by (simp split: prod.splits)
  qed
qed

lemma slash_split_unique:
  "s @ CHR ''/'' # r = s' @ CHR ''/'' # r' \<Longrightarrow> CHR ''/'' \<notin> set s \<Longrightarrow> CHR ''/'' \<notin> set s'
     \<Longrightarrow> s = s' \<and> r = r'"
proof (induction s arbitrary: s')
  case Nil
  then show ?case by (cases s') auto
next
  case (Cons a s)
  then show ?case by (cases s') auto
qed

lemma var_entries_fst:
  "map fst (map (\<lambda>(n, c, v). (p @ n, v)) vs) = map ((@) p) (map fst vs)"
  by (induction vs) auto

lemma var_entries_keys:
  "k \<in> fst ` set (map (\<lambda>(n, c, v). (p @ n, v)) vs) \<longleftrightarrow> (\<exists>n \<in> fst ` set vs. k = p @ n)"
proof -
  have "fst ` set (map (\<lambda>(n, c, v). (p @ n, v)) vs) = set (map fst (map (\<lambda>(n, c, v). (p @ n, v)) vs))"
    by (simp only: set_map)
  also have "\<dots> = (@) p ` fst ` set vs"
    by (simp only: var_entries_fst set_map)
  finally show ?thesis by blast
qed

lemma entries_keys:
  "\<forall>g es seen' k. split_node fuel (h :: (nat \<times> 'v Obj) list) seen p a = Some (g, es, seen')
      \<longrightarrow> k \<in> fst ` set es \<longrightarrow> (\<exists>r. k = p @ r)"
  "\<forall>gs es seen' k. split_subs fuel (h :: (nat \<times> 'v Obj) list) seen p subs = Some (gs, es, seen')
      \<longrightarrow> k \<in> fst ` set es \<longrightarrow> (\<exists>s r. k = p @ s @ CHR ''/'' # r \<and> s \<in> fst ` set subs)"
proof (induction fuel h seen p a and fuel h seen p subs rule: split_node_split_subs.induct)
  case (1 h seen p a)
  show ?case
  proof (intro allI impI)
    fix g es seen' k
    assume eq: "split_node 0 h seen p a = Some (g, es, seen')" and k: "k \<in> fst ` set es"
    show "\<exists>r. k = p @ r"
      using k by (cases rule: split_node_cases [OF eq]) simp_all
  qed
next
  case (2 fuel h seen p a)
  show ?case
  proof (intro allI impI)
    fix g es seen' k
    assume eq: "split_node (Suc fuel) h seen p a = Some (g, es, seen')" and k: "k \<in> fst ` set es"
    show "\<exists>r. k = p @ r"
    proof (cases rule: split_node_cases [OF eq])
      case 1
      with k show ?thesis by simp
    next
      case new: (2 n obj gs es1)
      from new(2) have n: "n = fuel" by simp
      note sub = new(4) [unfolded n]
      from k new(6) consider "k \<in> fst ` set (map (\<lambda>(n, c, v). (p @ n, v)) (obj_variables obj))"
        | "k \<in> fst ` set es1"
        by (auto simp add: image_Un simp del: set_map)
      then show ?thesis
      proof cases
        case 1
        then show ?thesis unfolding var_entries_keys by blast
      next
        case 2
        from "2.IH" [OF new(1,3), rule_format, OF sub 2] show ?thesis by blast
      qed
    qed
  qed
next
  case (3 fuel h seen p)
  show ?case by simp
next
  case (4 fuel h seen p n a rest)
  show ?case
  proof (intro allI impI)
    fix gs es seen' k
    assume eq: "split_subs fuel h seen p ((n, a) # rest) = Some (gs, es, seen')"
      and k: "k \<in> fst ` set es"
    from eq obtain g es1 seen1 gs' es2 where
      node: "split_node fuel h seen (p @ n @ ''/'') a = Some (g, es1, seen1)"
      and rest: "split_subs fuel h seen1 p rest = Some (gs', es2, seen')"
      and es: "es = es1 @ es2"
      by (rule split_subs_cons)
    from k es consider "k \<in> fst ` set es1" | "k \<in> fst ` set es2"
      by (auto simp add: image_Un)
    then show "\<exists>s r. k = p @ s @ CHR ''/'' # r \<and> s \<in> fst ` set ((n, a) # rest)"
    proof cases
      case 1
      from "4.IH"(1) [rule_format, OF node 1] obtain r where "k = (p @ n @ ''/'') @ r" by blast
      then have "k = p @ n @ CHR ''/'' # r \<and> n \<in> fst ` set ((n, a) # rest)" by simp
      then show ?thesis by blast
    next
      case 2
      from "4.IH"(2) [OF node refl refl, rule_format, OF rest 2] obtain s r where
        "k = p @ s @ CHR ''/'' # r" "s \<in> fst ` set rest" by blast
      then have "k = p @ s @ CHR ''/'' # r \<and> s \<in> fst ` set ((n, a) # rest)" by simp
      then show ?thesis by blast
    qed
  qed
qed

lemma wf_heap_obj:
  assumes "wf_heap h" and "map_of h a = Some obj"
  shows "list_all attr_name (map fst (obj_variables obj))" "distinct (map fst (obj_variables obj))"
    "list_all attr_name (map fst (obj_submodules obj))" "distinct (map fst (obj_submodules obj))"
proof -
  from assms have "wf_obj h obj" unfolding wf_heap_def by blast
  then show "list_all attr_name (map fst (obj_variables obj))" "distinct (map fst (obj_variables obj))"
    "list_all attr_name (map fst (obj_submodules obj))" "distinct (map fst (obj_submodules obj))"
    unfolding wf_obj_def by blast+
qed

lemma attr_name_slash: "list_all attr_name ns \<Longrightarrow> n \<in> set ns \<Longrightarrow> CHR ''/'' \<notin> set n"
  unfolding list_all_iff attr_name_def by blast

lemma sub_key_name:
  assumes eq: "split_subs fuel h seen p subs = Some (gs, es, seen')"
    and k: "p @ s @ CHR ''/'' # r \<in> fst ` set es"
    and s: "CHR ''/'' \<notin> set s" and names: "list_all attr_name (map fst subs)"
  shows "s \<in> fst ` set subs"
proof -
  from entries_keys(2) [rule_format, OF eq k] obtain s' r' where
    k': "p @ s @ CHR ''/'' # r = p @ s' @ CHR ''/'' # r'" and s': "s' \<in> fst ` set subs"
    by blast
  from s' have "s' \<in> set (map fst subs)" by simp
  with names have n: "CHR ''/'' \<notin> set s'" by (rule attr_name_slash)
  from k' have e: "s @ CHR ''/'' # r = s' @ CHR ''/'' # r'" by (simp only: same_append_eq)
  have "s = s'" by (rule slash_split_unique [THEN conjunct1, OF e s n])
  with s' show ?thesis by simp
qed

lemma entries_distinct:
  "\<forall>g es seen'. wf_heap (h :: (nat \<times> 'v Obj) list)
      \<longrightarrow> split_node fuel h seen p a = Some (g, es, seen') \<longrightarrow> distinct (map fst es)"
  "\<forall>gs es seen'. wf_heap (h :: (nat \<times> 'v Obj) list)
      \<longrightarrow> list_all attr_name (map fst subs) \<longrightarrow> distinct (map fst subs)
      \<longrightarrow> split_subs fuel h seen p subs = Some (gs, es, seen') \<longrightarrow> distinct (map fst es)"
proof (induction fuel h seen p a and fuel h seen p subs rule: split_node_split_subs.induct)
  case (1 h seen p a)
  show ?case
  proof (intro allI impI)
    fix g es seen'
    assume eq: "split_node 0 h seen p a = Some (g, es, seen')"
    show "distinct (map fst es)"
      by (cases rule: split_node_cases [OF eq]) simp_all
  qed
next
  case (2 fuel h seen p a)
  show ?case
  proof (intro allI impI)
    fix g es seen'
    assume wf: "wf_heap h" and eq: "split_node (Suc fuel) h seen p a = Some (g, es, seen')"
    show "distinct (map fst es)"
    proof (cases rule: split_node_cases [OF eq])
      case 1
      then show ?thesis by simp
    next
      case new: (2 n obj gs es1)
      from new(2) have n: "n = fuel" by simp
      note sub = new(4) [unfolded n]
      note ok = wf_heap_obj [OF wf new(3)]
      let ?vs = "map (\<lambda>(n, c, v). (p @ n, v)) (obj_variables obj)"
      from ok(2) have "distinct (map ((@) p) (map fst (obj_variables obj)))"
        unfolding distinct_map [of "(@) p"] by (simp add: inj_on_def)
      then have a: "distinct (map fst ?vs)" by (simp only: var_entries_fst)
      from "2.IH" [OF new(1,3), rule_format, OF wf ok(3,4) sub]
      have b: "distinct (map fst es1)" .
      have c: "fst ` set ?vs \<inter> fst ` set es1 = {}"
      proof (rule ccontr)
        assume "\<not> ?thesis"
        then obtain k where k1: "k \<in> fst ` set ?vs" and k2: "k \<in> fst ` set es1" by blast
        from k1 obtain x where x: "x \<in> fst ` set (obj_variables obj)" and k: "k = p @ x"
          unfolding var_entries_keys by blast
        from x have "x \<in> set (map fst (obj_variables obj))" by simp
        with ok(1) have nx: "CHR ''/'' \<notin> set x" by (rule attr_name_slash)
        from entries_keys(2) [rule_format, OF sub k2] obtain s r where "k = p @ s @ CHR ''/'' # r"
          by blast
        with k have "x = s @ CHR ''/'' # r" by simp
        with nx show False by simp
      qed
      have "distinct (map fst ?vs @ map fst es1)"
        unfolding distinct_append using a b c by (simp only: set_map)
      with new(6) show ?thesis by simp
    qed
  qed
next
  case (3 fuel h seen p)
  show ?case by simp
next
  case (4 fuel h seen p n a rest)
  show ?case
  proof (intro allI impI)
    fix gs es seen'
    assume wf: "wf_heap h" and names: "list_all attr_name (map fst ((n, a) # rest))"
      and dist: "distinct (map fst ((n, a) # rest))"
      and eq: "split_subs fuel h seen p ((n, a) # rest) = Some (gs, es, seen')"
    from eq obtain g es1 seen1 gs' es2 where
      node: "split_node fuel h seen (p @ n @ ''/'') a = Some (g, es1, seen1)"
      and rest: "split_subs fuel h seen1 p rest = Some (gs', es2, seen')"
      and es: "es = es1 @ es2"
      by (rule split_subs_cons)
    from names have nn: "attr_name n" and names': "list_all attr_name (map fst rest)" by simp_all
    from dist have fresh: "n \<notin> fst ` set rest" and dist': "distinct (map fst rest)" by simp_all
    from nn have n: "CHR ''/'' \<notin> set n" by (simp add: attr_name_def)
    from "4.IH"(1) [rule_format, OF wf node] have a: "distinct (map fst es1)" .
    from "4.IH"(2) [OF node refl refl, rule_format, OF wf names' dist' rest]
    have b: "distinct (map fst es2)" .
    have c: "fst ` set es1 \<inter> fst ` set es2 = {}"
    proof (rule ccontr)
      assume "\<not> ?thesis"
      then obtain k where k1: "k \<in> fst ` set es1" and k2: "k \<in> fst ` set es2" by blast
      from entries_keys(1) [rule_format, OF node k1] obtain r where "k = (p @ n @ ''/'') @ r"
        by blast
      then have k: "k = p @ n @ CHR ''/'' # r" by simp
      from k2 k have "p @ n @ CHR ''/'' # r \<in> fst ` set es2" by simp
      from sub_key_name [OF rest this n names'] fresh show False by simp
    qed
    have "distinct (map fst es1 @ map fst es2)"
      unfolding distinct_append using a b c by (simp only: set_map)
    with es show "distinct (map fst es)" by simp
  qed
qed

lemma visited_reachable:
  "\<forall>g es seen' b. split_node fuel (h :: (nat \<times> 'v Obj) list) seen p a = Some (g, es, seen')
      \<longrightarrow> b \<in> set (drop (length seen) seen') \<longrightarrow> (a, b) \<in> (child_rel h)\<^sup>*"
  "\<forall>gs es seen' b. split_subs fuel (h :: (nat \<times> 'v Obj) list) seen p subs = Some (gs, es, seen')
      \<longrightarrow> b \<in> set (drop (length seen) seen')
      \<longrightarrow> (\<exists>c \<in> snd ` set subs. (c, b) \<in> (child_rel h)\<^sup>*)"
proof (induction fuel h seen p a and fuel h seen p subs rule: split_node_split_subs.induct)
  case (1 h seen p a)
  show ?case
  proof (intro allI impI)
    fix g es seen' b
    assume eq: "split_node 0 h seen p a = Some (g, es, seen')"
      and b: "b \<in> set (drop (length seen) seen')"
    show "(a, b) \<in> (child_rel h)\<^sup>*"
      using b by (cases rule: split_node_cases [OF eq]) simp_all
  qed
next
  case (2 fuel h seen p a)
  show ?case
  proof (intro allI impI)
    fix g es seen' b
    assume eq: "split_node (Suc fuel) h seen p a = Some (g, es, seen')"
      and b: "b \<in> set (drop (length seen) seen')"
    show "(a, b) \<in> (child_rel h)\<^sup>*"
    proof (cases rule: split_node_cases [OF eq])
      case 1
      with b show ?thesis by simp
    next
      case new: (2 n obj gs es1)
      from new(2) have n: "n = fuel" by simp
      note sub = new(4) [unfolded n]
      from split_extends(2) [rule_format, OF sub] have "extends h (seen @ [a]) seen'" by blast
      from extends_new [OF this] have s': "seen' = seen @ a # drop (Suc (length seen)) seen'"
        by simp
      then have "drop (length seen) seen' = a # drop (Suc (length seen)) seen'"
        by (metis append_eq_conv_conj)
      with b consider "b = a" | "b \<in> set (drop (length (seen @ [a])) seen')" by auto
      then show ?thesis
      proof cases
        case 1
        then show ?thesis by simp
      next
        case 2
        from "2.IH" [OF new(1,3), rule_format, OF sub 2] obtain c where
          c: "c \<in> snd ` set (obj_submodules obj)" and cb: "(c, b) \<in> (child_rel h)\<^sup>*" by blast
        from c new(3) have "(a, c) \<in> child_rel h" unfolding child_rel_def by blast
        from converse_rtrancl_into_rtrancl [OF this cb] show ?thesis .
      qed
    qed
  qed
next
  case (3 fuel h seen p)
  show ?case by simp
next
  case (4 fuel h seen p n a rest)
  show ?case
  proof (intro allI impI)
    fix gs es seen' b
    assume eq: "split_subs fuel h seen p ((n, a) # rest) = Some (gs, es, seen')"
      and b: "b \<in> set (drop (length seen) seen')"
    from eq obtain g es1 seen1 gs' es2 where
      node: "split_node fuel h seen (p @ n @ ''/'') a = Some (g, es1, seen1)"
      and rest: "split_subs fuel h seen1 p rest = Some (gs', es2, seen')"
      by (rule split_subs_cons)
    from split_extends(1) [rule_format, OF node] have e1: "extends h seen seen1" by blast
    from split_extends(2) [rule_format, OF rest] have e2: "extends h seen1 seen'" by blast
    from extends_new [OF e1] have s1: "seen1 = seen @ drop (length seen) seen1" .
    from extends_new [OF e2] have s2: "seen' = seen1 @ drop (length seen1) seen'" .
    have "drop (length seen) seen' = drop (length seen) seen1 @ drop (length seen1) seen'"
      using s1 s2 by (metis append.assoc append_eq_conv_conj)
    with b consider "b \<in> set (drop (length seen) seen1)" | "b \<in> set (drop (length seen1) seen')"
      by auto
    then show "\<exists>c \<in> snd ` set ((n, a) # rest). (c, b) \<in> (child_rel h)\<^sup>*"
    proof cases
      case 1
      from "4.IH"(1) [rule_format, OF node 1] show ?thesis by simp
    next
      case 2
      from "4.IH"(2) [OF node refl refl, rule_format, OF rest 2] show ?thesis by auto
    qed
  qed
qed

lemma visited_closed:
  "\<forall>g es seen' b obj. split_node fuel (h :: (nat \<times> 'v Obj) list) seen p a = Some (g, es, seen')
      \<longrightarrow> b \<in> set (drop (length seen) seen') \<longrightarrow> map_of h b = Some obj
      \<longrightarrow> snd ` set (obj_submodules obj) \<subseteq> set seen'"
  "\<forall>gs es seen' b obj. split_subs fuel (h :: (nat \<times> 'v Obj) list) seen p subs = Some (gs, es, seen')
      \<longrightarrow> b \<in> set (drop (length seen) seen') \<longrightarrow> map_of h b = Some obj
      \<longrightarrow> snd ` set (obj_submodules obj) \<subseteq> set seen'"
proof (induction fuel h seen p a and fuel h seen p subs rule: split_node_split_subs.induct)
  case (1 h seen p a)
  show ?case
  proof (intro allI impI)
    fix g es seen' b obj
    assume eq: "split_node 0 h seen p a = Some (g, es, seen')"
      and b: "b \<in> set (drop (length seen) seen')" and "map_of h b = Some obj"
    show "snd ` set (obj_submodules obj) \<subseteq> set seen'"
      using b by (cases rule: split_node_cases [OF eq]) simp_all
  qed
next
  case (2 fuel h seen p a)
  show ?case
  proof (intro allI impI)
    fix g es seen' b obj
    assume eq: "split_node (Suc fuel) h seen p a = Some (g, es, seen')"
      and b: "b \<in> set (drop (length seen) seen')" and obj: "map_of h b = Some obj"
    show "snd ` set (obj_submodules obj) \<subseteq> set seen'"
    proof (cases rule: split_node_cases [OF eq])
      case 1
      with b show ?thesis by simp
    next
      case new: (2 n obj' gs es1)
      from new(2) have n: "n = fuel" by simp
      note sub = new(4) [unfolded n]
      from split_extends(2) [rule_format, OF sub]
      have e: "extends h (seen @ [a]) seen'"
        and ch: "snd ` set (obj_submodules obj') \<subseteq> set seen'" by blast+
      from extends_new [OF e] have s': "seen' = seen @ a # drop (Suc (length seen)) seen'"
        by simp
      then have "drop (length seen) seen' = a # drop (Suc (length seen)) seen'"
        by (metis append_eq_conv_conj)
      with b consider "b = a" | "b \<in> set (drop (length (seen @ [a])) seen')" by auto
      then show ?thesis
      proof cases
        case 1
        with obj new(3) have "obj = obj'" by simp
        with ch show ?thesis by simp
      next
        case 2
        from "2.IH" [OF new(1,3), rule_format, OF sub 2 obj] show ?thesis .
      qed
    qed
  qed
next
  case (3 fuel h seen p)
  show ?case by simp
next
  case (4 fuel h seen p n a rest)
  show ?case
  proof (intro allI impI)
    fix gs es seen' b obj
    assume eq: "split_subs fuel h seen p ((n, a) # rest) = Some (gs, es, seen')"
      and b: "b \<in> set (drop (length seen) seen')" and obj: "map_of h b = Some obj"
    from eq obtain g es1 seen1 gs' es2 where
      node: "split_node fuel h seen (p @ n @ ''/'') a = Some (g, es1, seen1)"
      and rest: "split_subs fuel h seen1 p rest = Some (gs', es2, seen')"
      by (rule split_subs_cons)
    from split_extends(1) [rule_format, OF node] have e1: "extends h seen seen1" by blast
    from split_extends(2) [rule_format, OF rest] have e2: "extends h seen1 seen'" by blast
    from extends_new [OF e1] have s1: "seen1 = seen @ drop (length seen) seen1" .
    from extends_new [OF e2] have s2: "seen' = seen1 @ drop (length seen1) seen'" .
    have "drop (length seen) seen' = drop (length seen) seen1 @ drop (length seen1) seen'"
      using s1 s2 by (metis append.assoc append_eq_conv_conj)
    with b consider "b \<in> set (drop (length seen) seen1)" | "b \<in> set (drop (length seen1) seen')"
      by auto
    then show "snd ` set (obj_submodules obj) \<subseteq> set seen'"
    proof cases
      case 1
      from "4.IH"(1) [rule_format, OF node 1 obj]
      have "snd ` set (obj_submodules obj) \<subseteq> set seen1" .
      moreover have "set seen1 \<subseteq> set seen'" using e2 by (rule extends_subset)
      ultimately show ?thesis by (rule subset_trans)
    next
      case 2
      from "4.IH"(2) [OF node refl refl, rule_format, OF rest 2 obj] show ?thesis .
    qed
  qed
qed

lemma map_of_map_inj:
  "a \<in> set xs \<Longrightarrow> inj_on f (set xs) \<Longrightarrow> map_of (map (\<lambda>b. (f b, G b)) xs) (f a) = Some (G a)"
proof (induction xs)
  case Nil
  then show ?case by simp
next
  case (Cons x xs)
  show ?case
  proof (cases "x = a")
    case True
    then show ?thesis by simp
  next
    case False
    with Cons.prems have a: "a \<in> set xs" and inj: "inj_on f (set xs)" and "f x \<noteq> f a"
      by (auto simp add: inj_on_def)
    with Cons.IH show ?thesis by simp
  qed
qed

lemma split_top:
  assumes wf: "wf_module m"
  obtains g es where
    "split_node (length (heap m)) (heap m) [] [] (root m) = Some (g, es, visit_order m)"
proof -
  let ?h = "heap m"
  from wf have h: "wf_heap ?h" by (rule wf_module_heap)
  from wf have r: "root m \<in> fst ` set ?h" by (simp add: wf_module_def)
  have "card (fst ` set ?h) \<le> card (set ?h)" by (rule card_image_le) simp
  also have "\<dots> \<le> length ?h" by (rule card_length)
  finally have "card (fst ` set ?h - set []) \<le> length ?h" by simp
  from split_total(1) [rule_format, OF h r this, of "[]"]
  obtain g es order where eq: "split_node (length ?h) ?h [] [] (root m) = Some (g, es, order)"
    by (cases "split_node (length ?h) ?h [] [] (root m)") auto
  then have "visit_order m = order" by (simp add: visit_order_def)
  with eq that show ?thesis by blast
qed

lemma visit_order_props:
  assumes wf: "wf_module m"
  shows "distinct (visit_order m)" "set (visit_order m) = reachable m"
    "set (visit_order m) \<subseteq> fst ` set (heap m)" "root m \<in> set (visit_order m)"
proof -
  let ?h = "heap m" and ?o = "visit_order m"
  from split_top [OF wf] obtain g es where
    eq: "split_node (length ?h) ?h [] [] (root m) = Some (g, es, ?o)" .
  from split_extends(1) [rule_format, OF eq] have e: "extends ?h [] ?o" and r: "root m \<in> set ?o"
    by blast+
  from e show d: "distinct ?o" and dom: "set ?o \<subseteq> fst ` set ?h" by (simp_all add: extends_def)
  from r show "root m \<in> set ?o" .
  show "set ?o = reachable m"
  proof
    show "set ?o \<subseteq> reachable m"
    proof
      fix b assume "b \<in> set ?o"
      then have "b \<in> set (drop (length ([] :: nat list)) ?o)" by simp
      from visited_reachable(1) [rule_format, OF eq this] show "b \<in> reachable m"
        by (simp add: reachable_def)
    qed
  next
    show "reachable m \<subseteq> set ?o"
    proof
      fix b assume "b \<in> reachable m"
      then have "(root m, b) \<in> (child_rel ?h)\<^sup>*" by (simp add: reachable_def)
      then show "b \<in> set ?o"
      proof (induction rule: rtrancl_induct)
        case base
        from r show ?case .
      next
        case (step y z)
        from step(2) obtain obj where obj: "map_of ?h y = Some obj"
          and z: "z \<in> snd ` set (obj_submodules obj)"
          unfolding child_rel_def by blast
        from step(3) have "y \<in> set (drop (length ([] :: nat list)) ?o)" by simp
        from visited_closed(1) [rule_format, OF eq this obj] z show ?case by blast
      qed
    qed
  qed
qed

lemma split_merge_iso:
  assumes wf: "wf_module m"
  shows "\<exists>state static m'. Module_split m = Some (state, static)
           \<and> GraphDef_merge static state = Some m'
           \<and> isomorphic_by (index_of (visit_order m)) m m'"
proof -
  let ?h = "heap m" and ?o = "visit_order m"
  let ?f = "index_of ?o"
  let ?F = "\<lambda>b. (?f b, rename_obj ?f (the (map_of ?h b)))"
  from wf have h: "wf_heap ?h" by (rule wf_module_heap)
  note vo = visit_order_props [OF wf]
  from split_top [OF wf] obtain g es where
    eq: "split_node (length ?h) ?h [] [] (root m) = Some (g, es, ?o)" .
  then have sp: "Module_split m = Some (map_of es, g)" by (simp add: Module_split_def)
  from entries_distinct(1) [rule_format, OF h eq] have "distinct (map fst es)" .
  then have st: "\<forall>k v. (k, v) \<in> set es \<longrightarrow> map_of es k = Some v" by simp
  have "\<exists>r. ?o = ?o @ r" by simp
  from merge_split(1) [rule_format, OF eq st [rule_format] this]
  have ix: "gd_index g = ?f (root m)" and mn: "merge_node [] g (map_of es) = Some (map ?F ?o)"
    by simp_all
  let ?m' = "Module (map ?F ?o) (?f (root m))"
  from ix mn have mg: "GraphDef_merge g (map_of es) = Some ?m'" by (simp add: GraphDef_merge_def)
  have inj: "inj_on ?f (set ?o)"
    by (rule inj_onI) (rule index_of_inj)
  have iso: "isomorphic_by ?f m ?m'"
    unfolding isomorphic_by_def
  proof (intro conjI ballI)
    show "inj_on ?f (reachable m)" using inj vo(2) by simp
    show "root ?m' = ?f (root m)" by simp
    have "fst ` set (map ?F ?o) = ?f ` set ?o" by (simp add: image_image)
    then show "fst ` set (heap ?m') = ?f ` reachable m" using vo(2) by simp
  next
    fix a assume "a \<in> reachable m"
    with vo(2) have a: "a \<in> set ?o" by simp
    with vo(3) have "a \<in> fst ` set ?h" by blast
    then obtain obj where obj: "map_of ?h a = Some obj"
      by (cases "map_of ?h a") (auto simp add: map_of_eq_None_iff)
    from map_of_map_inj [OF a inj, of "\<lambda>b. rename_obj ?f (the (map_of ?h b))"] obj
    have "map_of (heap ?m') (?f a) = Some (rename_obj ?f obj)" by simp
    with obj show "\<exists>obj. map_of ?h a = Some obj \<and> map_of (heap ?m') (?f a) = Some (rename_obj ?f obj)"
      by blast
  qed
  from sp mg iso show ?thesis by blast
qed

lemma path_key_Cons: "path \<noteq> [] \<Longrightarrow> path_key (s # path) = s @ CHR ''/'' # path_key path"
  by (cases path) simp_all

lemma var_entry_here:
  assumes "map_of h a = Some obj" and "map_of (obj_variables obj) n = Some (c, v)"
    and "attr_name n"
  shows "var_entry h a p (p @ n) n v a"
  unfolding var_entry_def
proof (intro exI conjI)
  show "list_all attr_name ([] @ [n])" using assms(3) by simp
  show "p @ n = p @ path_key ([] @ [n])" by simp
  show "module_at h a [] = Some a" by simp
  show "map_of h a = Some obj" by fact
  show "map_of (obj_variables obj) n = Some (c, v)" by fact
qed

lemma var_entry_down:
  assumes "map_of h a = Some obj" and "map_of (obj_submodules obj) s = Some a'"
    and "attr_name s" and "var_entry h a' (p @ s @ ''/'') k n v b"
  shows "var_entry h a p k n v b"
proof -
  from assms(4) obtain q c obj' where q: "list_all attr_name (q @ [n])"
    and k: "k = (p @ s @ ''/'') @ path_key (q @ [n])"
    and at: "module_at h a' q = Some b" and o: "map_of h b = Some obj'"
    and v: "map_of (obj_variables obj') n = Some (c, v)"
    unfolding var_entry_def by blast
  have "list_all attr_name ((s # q) @ [n])" using q assms(3) by simp
  moreover have "k = p @ path_key ((s # q) @ [n])" using k by (simp add: path_key_Cons)
  moreover have "module_at h a (s # q) = Some b" using at assms(1,2) by simp
  ultimately show ?thesis unfolding var_entry_def using o v by blast
qed

lemma map_of_var:
  "(n, c, v) \<in> set vs \<Longrightarrow> distinct (map fst vs) \<Longrightarrow> map_of vs n = Some (c, v)"
  by (rule map_of_is_SomeI)

lemma var_entries_set:
  "(k, v) \<in> set (map (\<lambda>(n, c, v). (p @ n, v)) vs) \<longleftrightarrow> (\<exists>n c. (n, c, v) \<in> set vs \<and> k = p @ n)"
  by (induction vs) auto

lemma entries_are_variables:
  "\<forall>g es seen' k v. wf_heap (h :: (nat \<times> 'v Obj) list)
      \<longrightarrow> split_node fuel h seen p a = Some (g, es, seen') \<longrightarrow> (k, v) \<in> set es
      \<longrightarrow> (\<exists>b \<in> set (drop (length seen) seen'). \<exists>x. var_entry h a p k x v b)"
  "\<forall>gs es seen' k v. wf_heap (h :: (nat \<times> 'v Obj) list)
      \<longrightarrow> list_all attr_name (map fst subs) \<longrightarrow> distinct (map fst subs)
      \<longrightarrow> split_subs fuel h seen p subs = Some (gs, es, seen') \<longrightarrow> (k, v) \<in> set es
      \<longrightarrow> (\<exists>s a' b. map_of subs s = Some a' \<and> b \<in> set (drop (length seen) seen')
             \<and> (\<exists>x. var_entry h a' (p @ s @ ''/'') k x v b))"
proof (induction fuel h seen p a and fuel h seen p subs rule: split_node_split_subs.induct)
  case (1 h seen p a)
  show ?case
  proof (intro allI impI)
    fix g es seen' k and v :: 'v
    assume eq: "split_node 0 h seen p a = Some (g, es, seen')" and kv: "(k, v) \<in> set es"
    show "\<exists>b \<in> set (drop (length seen) seen'). \<exists>x. var_entry h a p k x v b"
      using kv by (cases rule: split_node_cases [OF eq]) simp_all
  qed
next
  case (2 fuel h seen p a)
  show ?case
  proof (intro allI impI)
    fix g es seen' k and v :: 'v
    assume wf: "wf_heap h" and eq: "split_node (Suc fuel) h seen p a = Some (g, es, seen')"
      and kv: "(k, v) \<in> set es"
    show "\<exists>b \<in> set (drop (length seen) seen'). \<exists>x. var_entry h a p k x v b"
    proof (cases rule: split_node_cases [OF eq])
      case 1
      with kv show ?thesis by simp
    next
      case new: (2 n obj gs es1)
      from new(2) have n: "n = fuel" by simp
      note sub = new(4) [unfolded n]
      note ok = wf_heap_obj [OF wf new(3)]
      from split_extends(2) [rule_format, OF sub] have "extends h (seen @ [a]) seen'" by blast
      from extends_new [OF this] have s': "seen' = seen @ a # drop (Suc (length seen)) seen'"
        by simp
      then have d: "drop (length seen) seen' = a # drop (length (seen @ [a])) seen'"
        by (metis append_eq_conv_conj length_append_singleton)
      from kv new(6) have "(k, v) \<in> set (map (\<lambda>(n, c, v). (p @ n, v)) (obj_variables obj)) \<union> set es1"
        by (simp only: set_append)
      then consider "(k, v) \<in> set (map (\<lambda>(n, c, v). (p @ n, v)) (obj_variables obj))"
        | "(k, v) \<in> set es1"
        by blast
      then show ?thesis
      proof cases
        case 1
        then obtain x c where x: "(x, c, v) \<in> set (obj_variables obj)" and k: "k = p @ x"
          unfolding var_entries_set by blast
        from x ok(2) have m: "map_of (obj_variables obj) x = Some (c, v)" by (rule map_of_var)
        from x have "x \<in> set (map fst (obj_variables obj))" by force
        with ok(1) have "attr_name x" unfolding list_all_iff by blast
        from var_entry_here [OF new(3) m this] k have "var_entry h a p k x v a" by simp
        moreover from d have "a \<in> set (drop (length seen) seen')" by simp
        ultimately show ?thesis by blast
      next
        case 2
        from "2.IH" [OF new(1,3), rule_format, OF wf ok(3,4) sub 2] obtain s a' b x where
          s: "map_of (obj_submodules obj) s = Some a'"
          and b: "b \<in> set (drop (length (seen @ [a])) seen')"
          and e: "var_entry h a' (p @ s @ ''/'') k x v b" by blast
        from s have "s \<in> set (map fst (obj_submodules obj))" by (force dest: map_of_SomeD)
        with ok(3) have "attr_name s" unfolding list_all_iff by blast
        from var_entry_down [OF new(3) s this e] have ve: "var_entry h a p k x v b" .
        from b d have "b \<in> set (drop (length seen) seen')" by simp
        with ve show ?thesis by blast
      qed
    qed
  qed
next
  case (3 fuel h seen p)
  show ?case by simp
next
  case (4 fuel h seen p n a rest)
  show ?case
  proof (intro allI impI)
    fix gs es seen' k and v :: 'v
    assume wf: "wf_heap h" and names: "list_all attr_name (map fst ((n, a) # rest))"
      and dist: "distinct (map fst ((n, a) # rest))"
      and eq: "split_subs fuel h seen p ((n, a) # rest) = Some (gs, es, seen')"
      and kv: "(k, v) \<in> set es"
    from eq obtain g es1 seen1 gs' es2 where
      node: "split_node fuel h seen (p @ n @ ''/'') a = Some (g, es1, seen1)"
      and rest: "split_subs fuel h seen1 p rest = Some (gs', es2, seen')"
      and es: "es = es1 @ es2"
      by (rule split_subs_cons)
    from names have names': "list_all attr_name (map fst rest)" by simp
    from dist have fresh: "n \<notin> fst ` set rest" and dist': "distinct (map fst rest)" by simp_all
    from split_extends(1) [rule_format, OF node] have e1: "extends h seen seen1" by blast
    from split_extends(2) [rule_format, OF rest] have e2: "extends h seen1 seen'" by blast
    from extends_new [OF e1] have s1: "seen1 = seen @ drop (length seen) seen1" .
    from extends_new [OF e2] have s2: "seen' = seen1 @ drop (length seen1) seen'" .
    have d: "drop (length seen) seen' = drop (length seen) seen1 @ drop (length seen1) seen'"
      using s1 s2 by (metis append.assoc append_eq_conv_conj)
    from kv es consider "(k, v) \<in> set es1" | "(k, v) \<in> set es2" by auto
    then show "\<exists>s a' b. map_of ((n, a) # rest) s = Some a' \<and> b \<in> set (drop (length seen) seen')
             \<and> (\<exists>x. var_entry h a' (p @ s @ ''/'') k x v b)"
    proof cases
      case 1
      from "4.IH"(1) [rule_format, OF wf node 1] obtain b x where
        "b \<in> set (drop (length seen) seen1)" "var_entry h a (p @ n @ ''/'') k x v b" by blast
      with d have "map_of ((n, a) # rest) n = Some a \<and> b \<in> set (drop (length seen) seen')
             \<and> (\<exists>x. var_entry h a (p @ n @ ''/'') k x v b)" by auto
      then show ?thesis by blast
    next
      case 2
      from "4.IH"(2) [OF node refl refl, rule_format, OF wf names' dist' rest 2] obtain s a' b x where
        s: "map_of rest s = Some a'" and b: "b \<in> set (drop (length seen1) seen')"
        and e: "var_entry h a' (p @ s @ ''/'') k x v b" by blast
      from s have "s \<in> fst ` set rest" by (force dest: map_of_SomeD)
      with fresh have "s \<noteq> n" by blast
      with s b d e have "map_of ((n, a) # rest) s = Some a' \<and> b \<in> set (drop (length seen) seen')
             \<and> (\<exists>x. var_entry h a' (p @ s @ ''/'') k x v b)" by auto
      then show ?thesis by blast
    qed
  qed
qed

lemma variables_have_entries:
  "\<forall>g es seen' b obj n c v. wf_heap (h :: (nat \<times> 'v Obj) list)
      \<longrightarrow> split_node fuel h seen p a = Some (g, es, seen')
      \<longrightarrow> b \<in> set (drop (length seen) seen') \<longrightarrow> map_of h b = Some obj
      \<longrightarrow> (n, c, v) \<in> set (obj_variables obj)
      \<longrightarrow> (\<exists>k. (k, v) \<in> set es \<and> var_entry h a p k n v b)"
  "\<forall>gs es seen' b obj n c v. wf_heap (h :: (nat \<times> 'v Obj) list)
      \<longrightarrow> list_all attr_name (map fst subs) \<longrightarrow> distinct (map fst subs)
      \<longrightarrow> split_subs fuel h seen p subs = Some (gs, es, seen')
      \<longrightarrow> b \<in> set (drop (length seen) seen') \<longrightarrow> map_of h b = Some obj
      \<longrightarrow> (n, c, v) \<in> set (obj_variables obj)
      \<longrightarrow> (\<exists>k s a'. (k, v) \<in> set es \<and> map_of subs s = Some a'
             \<and> var_entry h a' (p @ s @ ''/'') k n v b)"
proof (induction fuel h seen p a and fuel h seen p subs rule: split_node_split_subs.induct)
  case (1 h seen p a)
  show ?case
  proof (intro allI impI)
    fix g es seen' b n c and obj :: "'v Obj" and v :: 'v
    assume eq: "split_node 0 h seen p a = Some (g, es, seen')"
      and b: "b \<in> set (drop (length seen) seen')"
    show "\<exists>k. (k, v) \<in> set es \<and> var_entry h a p k n v b"
      using b by (cases rule: split_node_cases [OF eq]) simp_all
  qed
next
  case (2 fuel h seen p a)
  show ?case
  proof (intro allI impI)
    fix g es seen' b n c and obj :: "'v Obj" and v :: 'v
    assume wf: "wf_heap h" and eq: "split_node (Suc fuel) h seen p a = Some (g, es, seen')"
      and b: "b \<in> set (drop (length seen) seen')" and obj: "map_of h b = Some obj"
      and var: "(n, c, v) \<in> set (obj_variables obj)"
    show "\<exists>k. (k, v) \<in> set es \<and> var_entry h a p k n v b"
    proof (cases rule: split_node_cases [OF eq])
      case 1
      with b show ?thesis by simp
    next
      case new: (2 fuel' obj' gs es1)
      from new(2) have n: "fuel' = fuel" by simp
      note sub = new(4) [unfolded n]
      note ok = wf_heap_obj [OF wf new(3)]
      from split_extends(2) [rule_format, OF sub] have "extends h (seen @ [a]) seen'" by blast
      from extends_new [OF this] have s': "seen' = seen @ a # drop (Suc (length seen)) seen'"
        by simp
      then have d: "drop (length seen) seen' = a # drop (length (seen @ [a])) seen'"
        by (metis append_eq_conv_conj length_append_singleton)
      with b consider "b = a" | "b \<in> set (drop (length (seen @ [a])) seen')" by auto
      then show ?thesis
      proof cases
        case 1
        with obj new(3) have oo: "obj' = obj" by simp
        from var ok(2) oo have m: "map_of (obj_variables obj') n = Some (c, v)"
          by (simp add: map_of_var)
        from var have "n \<in> set (map fst (obj_variables obj))" by force
        with ok(1) oo have an: "attr_name n" unfolding list_all_iff by blast
        from var_entry_here [OF new(3) m an] 1 have "var_entry h a p (p @ n) n v b" by simp
        moreover from var oo have "(n, c, v) \<in> set (obj_variables obj')" by simp
        then have "(p @ n, v) \<in> set (map (\<lambda>(n, c, v). (p @ n, v)) (obj_variables obj'))"
          by (rule var_entries_mem)
        with new(6) have "(p @ n, v) \<in> set es" by simp
        ultimately show ?thesis by blast
      next
        case 2
        from "2.IH" [OF new(1,3), rule_format, OF wf ok(3,4) sub 2 obj var] obtain k s a' where
          k: "(k, v) \<in> set es1" and s: "map_of (obj_submodules obj') s = Some a'"
          and e: "var_entry h a' (p @ s @ ''/'') k n v b" by blast
        from s have "s \<in> set (map fst (obj_submodules obj'))" by (force dest: map_of_SomeD)
        with ok(3) have "attr_name s" unfolding list_all_iff by blast
        from var_entry_down [OF new(3) s this e] have "var_entry h a p k n v b" .
        moreover from k new(6) have "(k, v) \<in> set es" by simp
        ultimately show ?thesis by blast
      qed
    qed
  qed
next
  case (3 fuel h seen p)
  show ?case by simp
next
  case (4 fuel h seen p n0 a rest)
  show ?case
  proof (intro allI impI)
    fix gs es seen' b n c and obj :: "'v Obj" and v :: 'v
    assume wf: "wf_heap h" and names: "list_all attr_name (map fst ((n0, a) # rest))"
      and dist: "distinct (map fst ((n0, a) # rest))"
      and eq: "split_subs fuel h seen p ((n0, a) # rest) = Some (gs, es, seen')"
      and b: "b \<in> set (drop (length seen) seen')" and obj: "map_of h b = Some obj"
      and var: "(n, c, v) \<in> set (obj_variables obj)"
    from eq obtain g es1 seen1 gs' es2 where
      node: "split_node fuel h seen (p @ n0 @ ''/'') a = Some (g, es1, seen1)"
      and rest: "split_subs fuel h seen1 p rest = Some (gs', es2, seen')"
      and es: "es = es1 @ es2"
      by (rule split_subs_cons)
    from names have names': "list_all attr_name (map fst rest)" by simp
    from dist have fresh: "n0 \<notin> fst ` set rest" and dist': "distinct (map fst rest)" by simp_all
    from split_extends(1) [rule_format, OF node] have e1: "extends h seen seen1" by blast
    from split_extends(2) [rule_format, OF rest] have e2: "extends h seen1 seen'" by blast
    from extends_new [OF e1] have s1: "seen1 = seen @ drop (length seen) seen1" .
    from extends_new [OF e2] have s2: "seen' = seen1 @ drop (length seen1) seen'" .
    have d: "drop (length seen) seen' = drop (length seen) seen1 @ drop (length seen1) seen'"
      using s1 s2 by (metis append.assoc append_eq_conv_conj)
    with b consider "b \<in> set (drop (length seen) seen1)" | "b \<in> set (drop (length seen1) seen')"
      by auto
    then show "\<exists>k s a'. (k, v) \<in> set es \<and> map_of ((n0, a) # rest) s = Some a'
             \<and> var_entry h a' (p @ s @ ''/'') k n v b"
    proof cases
      case 1
      from "4.IH"(1) [rule_format, OF wf node 1 obj var] obtain k where
        "(k, v) \<in> set es1" "var_entry h a (p @ n0 @ ''/'') k n v b" by blast
      with es have "(k, v) \<in> set es \<and> map_of ((n0, a) # rest) n0 = Some a
             \<and> var_entry h a (p @ n0 @ ''/'') k n v b" by simp
      then show ?thesis by blast
    next
      case 2
      from "4.IH"(2) [OF node refl refl, rule_format, OF wf names' dist' rest 2 obj var]
      obtain k s a' where k: "(k, v) \<in> set es2" and s: "map_of rest s = Some a'"
        and e: "var_entry h a' (p @ s @ ''/'') k n v b" by blast
      from s have "s \<in> fst ` set rest" by (force dest: map_of_SomeD)
      with fresh have "s \<noteq> n0" by blast
      with k s e es have "(k, v) \<in> set es \<and> map_of ((n0, a) # rest) s = Some a'
             \<and> var_entry h a' (p @ s @ ''/'') k n v b" by simp
      then show ?thesis by blast
    qed
  qed
qed

lemma entries_count:
  "\<forall>g es seen'. split_node fuel (h :: (nat \<times> 'v Obj) list) seen p a = Some (g, es, seen')
      \<longrightarrow> length es = sum_list (map (\<lambda>b. length (obj_variables (the (map_of h b))))
                          (drop (length seen) seen'))"
  "\<forall>gs es seen'. split_subs fuel (h :: (nat \<times> 'v Obj) list) seen p subs = Some (gs, es, seen')
      \<longrightarrow> length es = sum_list (map (\<lambda>b. length (obj_variables (the (map_of h b))))
                          (drop (length seen) seen'))"
proof (induction fuel h seen p a and fuel h seen p subs rule: split_node_split_subs.induct)
  case (1 h seen p a)
  show ?case
  proof (intro allI impI)
    fix g es seen'
    assume eq: "split_node 0 h seen p a = Some (g, es, seen')"
    show "length es = sum_list (map (\<lambda>b. length (obj_variables (the (map_of h b))))
                          (drop (length seen) seen'))"
      by (cases rule: split_node_cases [OF eq]) simp_all
  qed
next
  case (2 fuel h seen p a)
  show ?case
  proof (intro allI impI)
    fix g es seen'
    assume eq: "split_node (Suc fuel) h seen p a = Some (g, es, seen')"
    show "length es = sum_list (map (\<lambda>b. length (obj_variables (the (map_of h b))))
                          (drop (length seen) seen'))"
    proof (cases rule: split_node_cases [OF eq])
      case 1
      then show ?thesis by simp
    next
      case new: (2 fuel' obj gs es1)
      from new(2) have n: "fuel' = fuel" by simp
      note sub = new(4) [unfolded n]
      from split_extends(2) [rule_format, OF sub] have "extends h (seen @ [a]) seen'" by blast
      from extends_new [OF this] have s': "seen' = seen @ a # drop (Suc (length seen)) seen'"
        by simp
      then have d: "drop (length seen) seen' = a # drop (length (seen @ [a])) seen'"
        by (metis append_eq_conv_conj length_append_singleton)
      from "2.IH" [OF new(1,3), rule_format, OF sub]
      have "length es1 = sum_list (map (\<lambda>b. length (obj_variables (the (map_of h b))))
                          (drop (length (seen @ [a])) seen'))" .
      with new(3,6) d show ?thesis by simp
    qed
  qed
next
  case (3 fuel h seen p)
  show ?case by simp
next
  case (4 fuel h seen p n a rest)
  show ?case
  proof (intro allI impI)
    fix gs es seen'
    assume eq: "split_subs fuel h seen p ((n, a) # rest) = Some (gs, es, seen')"
    from eq obtain g es1 seen1 gs' es2 where
      node: "split_node fuel h seen (p @ n @ ''/'') a = Some (g, es1, seen1)"
      and rest: "split_subs fuel h seen1 p rest = Some (gs', es2, seen')"
      and es: "es = es1 @ es2"
      by (rule split_subs_cons)
    from split_extends(1) [rule_format, OF node] have e1: "extends h seen seen1" by blast
    from split_extends(2) [rule_format, OF rest] have e2: "extends h seen1 seen'" by blast
    from extends_new [OF e1] have s1: "seen1 = seen @ drop (length seen) seen1" .
    from extends_new [OF e2] have s2: "seen' = seen1 @ drop (length seen1) seen'" .
    have d: "drop (length seen) seen' = drop (length seen) seen1 @ drop (length seen1) seen'"
      using s1 s2 by (metis append.assoc append_eq_conv_conj)
    from "4.IH"(1) [rule_format, OF node] "4.IH"(2) [OF node refl refl, rule_format, OF rest] es d
    show "length es = sum_list (map (\<lambda>b. length (obj_variables (the (map_of h b))))
                          (drop (length seen) seen'))"
      by simp
  qed
qed

lemma map_of_map_heap:
  "map_of (heap_map_values f h) a = map_option (obj_map_values f) (map_of h a)"
  unfolding heap_map_values_def by (induction h) auto

lemma obj_map_sel:
  "obj_type (obj_map_values f obj) = obj_type obj"
  "obj_static_fields (obj_map_values f obj) = obj_static_fields obj"
  "obj_submodules (obj_map_values f obj) = obj_submodules obj"
  "obj_variables (obj_map_values f obj) = map (\<lambda>(n, c, v). (n, c, f v)) (obj_variables obj)"
  by (simp_all add: obj_map_values_def)

lemma var_decl_map:
  "map (\<lambda>(n, c, v). (n, c)) (map (\<lambda>(n, c, v). (n, c, f v)) vs) = map (\<lambda>(n, c, v). (n, c)) vs"
  by (induction vs) auto

lemma var_entries_map:
  "map (\<lambda>(n, c, v). (p @ n, v)) (map (\<lambda>(n, c, v). (n, c, f v)) vs)
     = map (\<lambda>(k, v). (k, f v)) (map (\<lambda>(n, c, v). (p @ n, v)) vs)"
  by (induction vs) auto

lemma split_map_values:
  "split_node fuel (heap_map_values f (h :: (nat \<times> 'v Obj) list)) seen p a
     = map_option (\<lambda>(g, es, seen'). (g, map (\<lambda>(k, v). (k, f v)) es, seen'))
         (split_node fuel h seen p a)"
  "split_subs fuel (heap_map_values f (h :: (nat \<times> 'v Obj) list)) seen p subs
     = map_option (\<lambda>(gs, es, seen'). (gs, map (\<lambda>(k, v). (k, f v)) es, seen'))
         (split_subs fuel h seen p subs)"
proof (induction fuel h seen p a and fuel h seen p subs rule: split_node_split_subs.induct)
  case (1 h seen p a)
  show ?case by simp
next
  case (2 fuel h seen p a)
  show ?case
  proof (cases "a \<in> set seen")
    case True
    then show ?thesis by simp
  next
    case False
    show ?thesis
    proof (cases "map_of h a")
      case None
      with False show ?thesis by (simp add: map_of_map_heap)
    next
      case (Some obj)
      note ih = "2.IH" [OF False Some]
      show ?thesis
      proof (cases "split_subs fuel h (seen @ [a]) p (obj_submodules obj)")
        case None
        with False Some ih show ?thesis by (simp add: map_of_map_heap obj_map_sel)
      next
        case (Some r)
        obtain gs es1 seen' where r: "r = (gs, es1, seen')" by (cases r)
        with False \<open>map_of h a = Some obj\<close> Some ih show ?thesis
          by (auto simp add: map_of_map_heap obj_map_sel)
      qed
    qed
  qed
next
  case (3 fuel h seen p)
  show ?case by simp
next
  case (4 fuel h seen p n a rest)
  show ?case
  proof (cases "split_node fuel h seen (p @ n @ ''/'') a")
    case None
    with "4.IH"(1) show ?thesis by simp
  next
    case (Some r)
    obtain g es1 seen1 where r: "r = (g, es1, seen1)" by (cases r)
    note node = Some [unfolded r]
    note ih2 = "4.IH"(2) [OF node refl refl]
    show ?thesis
    proof (cases "split_subs fuel h seen1 p rest")
      case None
      with node "4.IH"(1) ih2 show ?thesis by simp
    next
      case (Some r2)
      obtain gs es2 seen2 where "r2 = (gs, es2, seen2)" by (cases r2)
      with Some node "4.IH"(1) ih2 show ?thesis by simp
    qed
  qed
qed

lemma map_of_map_values:
  "map_of (map (\<lambda>(k, v). (k, f v)) es) = map_option f \<circ> map_of es"
  by (induction es) auto

lemma Module_split_map_values:
  "Module_split (map_values f m)
     = map_option (\<lambda>(state, static). (map_option f \<circ> state, static)) (Module_split m)"
proof -
  have "length (heap_map_values f (heap m)) = length (heap m)"
    by (simp add: heap_map_values_def)
  then show ?thesis
    by (simp add: Module_split_def map_values_def split_map_values map_of_map_values
        split: option.splits)
qed

text \<open>
  Claim C1. For every module, that is for every graph of objects in which references lead
  to objects and attribute names are well formed, with or without shared objects and
  references back: split returns a State and a GraphDef; merging that GraphDef with that
  State gives a module that is the original up to the identities of its objects, with the
  same sharing; every entry of the State is the value of a variable of the module, stored
  under the key of a path to it; every variable of every object of the module has its
  entry, under the key of a path to that object; there are as many entries as the objects
  of the module have variables; the GraphDef does not depend on the values (changing
  every value by \<open>f\<close> changes the State's values by \<open>f\<close> and leaves the GraphDef
  as it is); and \<open>forward\<close>, which takes and returns only the GraphDef, the State and
  arrays, does what a call of the merged module does.
\<close>

theorem split_merge_roundtrip:
  assumes "wf_module m"
  shows "\<exists>state static m'.
      Module_split m = Some (state, static)
    \<and> GraphDef_merge static state = Some m'
    \<and> isomorphic_by (index_of (visit_order m)) m m'
    \<and> (\<forall>k v. state k = Some v \<longrightarrow>
          (\<exists>path. list_all attr_name path \<and> k = path_key path \<and> variable_at m path = Some v))
    \<and> (\<forall>a obj n c v. a \<in> reachable m \<longrightarrow> map_of (heap m) a = Some obj
          \<longrightarrow> (n, c, v) \<in> set (obj_variables obj)
          \<longrightarrow> (\<exists>q. module_at (heap m) (root m) q = Some a \<and> state (path_key (q @ [n])) = Some v))
    \<and> card (dom state) = (\<Sum>a \<in> reachable m. length (obj_variables (the (map_of (heap m) a))))
    \<and> Module_split (map_values f m) = Some (map_option f \<circ> state, static)
    \<and> forward call static state x
        = map_option (\<lambda>(state1, static1). (fst (call m' x), state1)) (Module_split (snd (call m' x)))"
proof -
  let ?h = "heap m" and ?o = "visit_order m"
  from assms have h: "wf_heap ?h" by (rule wf_module_heap)
  note vo = visit_order_props [OF assms]
  from split_top [OF assms] obtain g es where
    eq: "split_node (length ?h) ?h [] [] (root m) = Some (g, es, ?o)" .
  then have sp: "Module_split m = Some (map_of es, g)" by (simp add: Module_split_def)
  from split_merge_iso [OF assms] sp obtain m' where
    mg: "GraphDef_merge g (map_of es) = Some m'" and iso: "isomorphic_by (index_of ?o) m m'"
    by auto
  from entries_distinct(1) [rule_format, OF h eq] have dist: "distinct (map fst es)" .
  have drop0: "drop (length ([] :: nat list)) ?o = ?o" by simp
  have a: "\<exists>path. list_all attr_name path \<and> k = path_key path \<and> variable_at m path = Some v"
    if "map_of es k = Some v" for k v
  proof -
    from that have "(k, v) \<in> set es" by (rule map_of_SomeD)
    from entries_are_variables(1) [rule_format, OF h eq this] obtain b n where
      "var_entry ?h (root m) [] k n v b" by blast
    then obtain q c obj where q: "list_all attr_name (q @ [n])" and k: "k = path_key (q @ [n])"
      and at: "module_at ?h (root m) q = Some b" and o: "map_of ?h b = Some obj"
      and v: "map_of (obj_variables obj) n = Some (c, v)"
      unfolding var_entry_def by auto
    from at o v have "variable_at m (q @ [n]) = Some v" by (simp add: variable_at_def)
    with q k show ?thesis by blast
  qed
  have b: "\<exists>q. module_at ?h (root m) q = Some a \<and> map_of es (path_key (q @ [n])) = Some v"
    if "a \<in> reachable m" "map_of ?h a = Some obj" "(n, c, v) \<in> set (obj_variables obj)"
    for a obj n c v
  proof -
    from that(1) vo(2) have "a \<in> set (drop (length ([] :: nat list)) ?o)" by simp
    from variables_have_entries(1) [rule_format, OF h eq this that(2,3)] obtain k where
      kv: "(k, v) \<in> set es" and e: "var_entry ?h (root m) [] k n v a" by blast
    from e obtain q where "k = path_key (q @ [n])" "module_at ?h (root m) q = Some a"
      unfolding var_entry_def by auto
    moreover from dist kv have "map_of es k = Some v" by (rule map_of_is_SomeI)
    ultimately show ?thesis by blast
  qed
  have c: "card (dom (map_of es)) = (\<Sum>a \<in> reachable m. length (obj_variables (the (map_of ?h a))))"
  proof -
    have "card (dom (map_of es)) = card (set (map fst es))"
      by (simp add: dom_map_of_conv_image_fst)
    also have "\<dots> = length es" using distinct_card [OF dist] by simp
    also have "\<dots> = sum_list (map (\<lambda>b. length (obj_variables (the (map_of ?h b)))) ?o)"
      using entries_count(1) [rule_format, OF eq] by simp
    also have "\<dots> = (\<Sum>a \<in> set ?o. length (obj_variables (the (map_of ?h a))))"
      using vo(1) by (rule sum_list_distinct_conv_sum_set)
    finally show ?thesis using vo(2) by simp
  qed
  have d: "Module_split (map_values f m) = Some (map_option f \<circ> map_of es, g)"
    by (simp add: Module_split_map_values sp)
  have e: "forward call g (map_of es) x
        = map_option (\<lambda>(state1, static1). (fst (call m' x), state1)) (Module_split (snd (call m' x)))"
    by (simp add: forward_def mg split: prod.splits option.splits)
  from sp mg iso a b c d e show ?thesis by blast
qed

theorem split_merge_roundtrip_witness:
  "wf_module shared_example
   \<and> Module_split shared_example =
       Some (map_of [(''count'', 0), (''left/w'', 5), (''other/w'', 6)],
             GraphDef ''Pair'' 0 [] [(''count'', ''Count'')]
               [(''left'', GraphDef ''Leaf'' 1 [(''size'', ''4'')] [(''w'', ''Param'')]
                            [(''owner'', Index 0)]),
                (''right'', Index 1),
                (''other'', GraphDef ''Leaf'' 2 [(''size'', ''4'')] [(''w'', ''Param'')] [])])
   \<and> GraphDef_merge
        (GraphDef ''Pair'' 0 [] [(''count'', ''Count'')]
           [(''left'', GraphDef ''Leaf'' 1 [(''size'', ''4'')] [(''w'', ''Param'')]
                        [(''owner'', Index 0)]),
            (''right'', Index 1),
            (''other'', GraphDef ''Leaf'' 2 [(''size'', ''4'')] [(''w'', ''Param'')] [])])
        (map_of [(''count'', 0), (''left/w'', 5), (''other/w'', 6)]) =
       Some (Module
         [(0, Obj ''Pair'' [] [(''count'', ''Count'', 0)]
                [(''left'', 1), (''right'', 1), (''other'', 2)]),
          (1, Obj ''Leaf'' [(''size'', ''4'')] [(''w'', ''Param'', 5)] [(''owner'', 0)]),
          (2, Obj ''Leaf'' [(''size'', ''4'')] [(''w'', ''Param'', 6)] [])]
         0)
   \<and> (\<exists>state static m'. Module_split shared_example = Some (state, static)
         \<and> GraphDef_merge static state = Some m'
         \<and> isomorphic_by (index_of (visit_order shared_example)) shared_example m')
   \<and> wf_module counter_linear_example
   \<and> Module_split counter_linear_example =
       Some (map_of [(''count'', ''Array(0, dtype=int32)''),
                     (''linear/bias'', ''Array([0., 0., 0., 0.], dtype=float32)''),
                     (''linear/kernel'', ''Array([[ 0.4541089 , -0.5264876 , -0.36505195, -0.57566494], [ 0.38802508,  0.5655534 ,  0.4870657 ,  0.2267774 ], [-0.9015767 ,  0.24465278, -0.5844707 ,  0.18421966], [-0.06992685, -0.64693886,  0.20232596,  1.1200062 ]], dtype=float32)'')],
             GraphDef ''CounterLinear'' 0 [] [(''count'', ''Count'')]
               [(''linear'',
                 GraphDef ''Linear'' 1
                   [(''bias_init'', ''<function zeros>''), (''dot_general'', ''<function dot_general>''),
                    (''dtype'', ''None''), (''in_features'', ''4''),
                    (''kernel_init'', ''<function variance_scaling.<locals>.init>''),
                    (''out_features'', ''4''), (''param_dtype'', ''<class jax.numpy.float32>''),
                    (''precision'', ''None''), (''use_bias'', ''True'')]
                   [(''bias'', ''Param''), (''kernel'', ''Param'')] [])])
   \<and> (case Module_split counter_linear_example of
          None \<Rightarrow> None
        | Some (state, static) \<Rightarrow> GraphDef_merge static state) = Some counter_linear_example"
proof -
  have wfc: "wf_module counter_linear_example"
    by (simp add: counter_linear_example_def wf_module_def wf_obj_def attr_name_def)
  have spc: "Module_split counter_linear_example =
       Some (map_of [(''count'', ''Array(0, dtype=int32)''),
                     (''linear/bias'', ''Array([0., 0., 0., 0.], dtype=float32)''),
                     (''linear/kernel'', ''Array([[ 0.4541089 , -0.5264876 , -0.36505195, -0.57566494], [ 0.38802508,  0.5655534 ,  0.4870657 ,  0.2267774 ], [-0.9015767 ,  0.24465278, -0.5844707 ,  0.18421966], [-0.06992685, -0.64693886,  0.20232596,  1.1200062 ]], dtype=float32)'')],
             GraphDef ''CounterLinear'' 0 [] [(''count'', ''Count'')]
               [(''linear'',
                 GraphDef ''Linear'' 1
                   [(''bias_init'', ''<function zeros>''), (''dot_general'', ''<function dot_general>''),
                    (''dtype'', ''None''), (''in_features'', ''4''),
                    (''kernel_init'', ''<function variance_scaling.<locals>.init>''),
                    (''out_features'', ''4''), (''param_dtype'', ''<class jax.numpy.float32>''),
                    (''precision'', ''None''), (''use_bias'', ''True'')]
                   [(''bias'', ''Param''), (''kernel'', ''Param'')] [])])"
    unfolding Module_split_def counter_linear_example_def by (simp del: map_of.simps)
  have mgc: "(case Module_split counter_linear_example of
          None \<Rightarrow> None
        | Some (state, static) \<Rightarrow> GraphDef_merge static state) = Some counter_linear_example"
    unfolding spc by (simp add: GraphDef_merge_def counter_linear_example_def)
  have wf: "wf_module shared_example"
    by (simp add: shared_example_def wf_module_def wf_obj_def attr_name_def)
  have sp: "Module_split shared_example =
       Some (map_of [(''count'', 0), (''left/w'', 5), (''other/w'', 6)],
             GraphDef ''Pair'' 0 [] [(''count'', ''Count'')]
               [(''left'', GraphDef ''Leaf'' 1 [(''size'', ''4'')] [(''w'', ''Param'')]
                            [(''owner'', Index 0)]),
                (''right'', Index 1),
                (''other'', GraphDef ''Leaf'' 2 [(''size'', ''4'')] [(''w'', ''Param'')] [])])"
    unfolding Module_split_def shared_example_def by (simp del: map_of.simps)
  have mg: "GraphDef_merge
        (GraphDef ''Pair'' 0 [] [(''count'', ''Count'')]
           [(''left'', GraphDef ''Leaf'' 1 [(''size'', ''4'')] [(''w'', ''Param'')]
                        [(''owner'', Index 0)]),
            (''right'', Index 1),
            (''other'', GraphDef ''Leaf'' 2 [(''size'', ''4'')] [(''w'', ''Param'')] [])])
        (map_of [(''count'', 0), (''left/w'', 5), (''other/w'', 6)]) =
       Some (Module
         [(0, Obj ''Pair'' [] [(''count'', ''Count'', 0)]
                [(''left'', 1), (''right'', 1), (''other'', 2)]),
          (1, Obj ''Leaf'' [(''size'', ''4'')] [(''w'', ''Param'', 5)] [(''owner'', 0)]),
          (2, Obj ''Leaf'' [(''size'', ''4'')] [(''w'', ''Param'', 6)] [])]
         0)"
    by (simp add: GraphDef_merge_def)
  from split_merge_roundtrip [OF wf, of id "\<lambda>m x. ((), m)" "()"]
  obtain state static m' where "Module_split shared_example = Some (state, static)"
    "GraphDef_merge static state = Some m'"
    "isomorphic_by (index_of (visit_order shared_example)) shared_example m'"
    by (elim exE conjE)
  then have ex: "\<exists>state static m'. Module_split shared_example = Some (state, static)
         \<and> GraphDef_merge static state = Some m'
         \<and> isomorphic_by (index_of (visit_order shared_example)) shared_example m'"
    by blast
  show ?thesis by (intro conjI wf sp mg ex wfc spc mgc)
qed

end
